theory Spec2Isabelle
  imports Main "HOL-Library.Sublist" "HOL-Library.Char_ord" "HOL-Library.List_Lexorder"
begin

section \<open>Strings\<close>

text \<open>
  Python strings are modelled as \<open>string\<close> (a list of characters). The string methods
  \<^verbatim>\<open>startswith\<close>, \<^verbatim>\<open>replace\<close> and \<^verbatim>\<open>split\<close> that \<^verbatim>\<open>scripts/collect_stats.py\<close> calls are
  written out here. \<^verbatim>\<open>str.lower\<close> follows the Unicode case tables and is not written out:
  it is a parameter \<open>lower\<close> of every definition that calls it, and every theorem holds
  whatever function it is.
\<close>

definition startswith :: "string \<Rightarrow> string \<Rightarrow> bool" where
  \<comment> \<open>\<^verbatim>\<open>s.startswith(p)\<close>\<close>
  "startswith s p = (take (length p) s = p)"

function replace :: "string \<Rightarrow> string \<Rightarrow> string \<Rightarrow> string" where
  \<comment> \<open>\<^verbatim>\<open>s.replace(old, new)\<close>: every non-overlapping occurrence of \<open>old\<close>, scanning from the
      left, is replaced; an empty \<open>old\<close> matches before every character and at the end.\<close>
  "replace s old new =
     (if old = [] then new @ concat (map (\<lambda>c. c # new) s)
      else if s = [] then []
      else if startswith s old then new @ replace (drop (length old) s) old new
      else hd s # replace (tl s) old new)"
  by pat_completeness auto
termination
  by (relation "measure (\<lambda>(s, old, new). length s)") auto

declare replace.simps [simp del]

definition split_slash :: "string \<Rightarrow> string list" where
  \<comment> \<open>\<^verbatim>\<open>s.split("/")\<close>: the pieces between the slashes, one more than there are slashes\<close>
  "split_slash s =
     foldr (\<lambda>c ps. if c = CHR ''/'' then [] # ps else (c # hd ps) # tl ps) s [[]]"

section \<open>Track classifier\<close>

text \<open>
  \<^verbatim>\<open>track_map\<close> is filled once at start-up from the optional file \<^verbatim>\<open>track_map.yaml\<close>, a
  mapping from a track to the list of its repositories. The argument is \<open>None\<close> when the
  YAML module or the file is missing or the file is empty (\<^verbatim>\<open>yaml.safe_load(f) or {}\<close>); a
  track whose list is missing counts as the empty list (\<^verbatim>\<open>repos or []\<close>). Keys are stored
  as \<^verbatim>\<open>r.lower()\<close>, and a later entry overwrites an earlier one.
\<close>

type_synonym track_map = "string \<rightharpoonup> string"

definition load_track_map :: "(string \<Rightarrow> string) \<Rightarrow> (string \<times> string list option) list option \<Rightarrow> track_map" where
  "load_track_map lower raw =
     fold (\<lambda>(track, repos) tm.
             fold (\<lambda>r tm'. tm'(lower r \<mapsto> track)) (case repos of None \<Rightarrow> [] | Some rs \<Rightarrow> rs) tm)
          (case raw of None \<Rightarrow> [] | Some kvs \<Rightarrow> kvs) Map.empty"

fun infer_track :: "(string \<Rightarrow> string) \<Rightarrow> track_map \<Rightarrow> string \<Rightarrow> string list \<Rightarrow> string option" where
  "infer_track lower tm repo_name [] = tm (lower repo_name)"
| "infer_track lower tm repo_name (t # ts) =
     (if startswith t ''track-'' then Some (replace t ''track-'' '''')
      else infer_track lower tm repo_name ts)"

section \<open>Data model\<close>

text \<open>
  The records follow the JSON objects that the script reads and writes; a field that the
  script reads with \<^verbatim>\<open>.get\<close> or guards with \<^verbatim>\<open>or\<close> is optional, \<open>None\<close> standing for a
  missing key or a JSON null. A field that the script reads by subscript, such as
  \<^verbatim>\<open>c["commit"]["author"]["date"]\<close>, is there in every object of the type. Python's
  integers are \<open>int\<close>.
\<close>

record commit =
  author_login :: "string option"  \<comment> \<open>\<^verbatim>\<open>(c.get("author") or {}).get("login")\<close>\<close>
  commit_author_name :: "string option"
    \<comment> \<open>\<^verbatim>\<open>c["commit"]["author"]\<close>, key \<^verbatim>\<open>"name"\<close>: a string when the key is there, \<open>None\<close> when
        it is missing\<close>
  commit_author_date :: string  \<comment> \<open>\<^verbatim>\<open>c["commit"]["author"]["date"]\<close>\<close>

record node =
  node_name :: string
  nameWithOwner :: string
  isArchived :: bool
  isDisabled :: bool
  node_updatedAt :: string
  node_pushedAt :: "string option"
  repositoryTopics :: "string list"  \<comment> \<open>the \<^verbatim>\<open>topic.name\<close> of each topic node\<close>

record repo =
  name :: string
  full :: string
  archived :: bool
  disabled :: bool
  updatedAt :: string
  pushedAt :: "string option"
  topics :: "string list"

record contributor =
  login :: string
  commits :: int

record repo_info =
  info_name :: string
  info_full :: string
  info_topics :: "string list"
  track :: "string option"
  commits_count :: int
  contributors :: "contributor list"
  last_commit_at :: string

record repo_rank =
  rank_repo :: string  \<comment> \<open>key \<^verbatim>\<open>"repo"\<close>\<close>
  rank_commits :: int  \<comment> \<open>key \<^verbatim>\<open>"commits"\<close>\<close>

record org_stats =
  org :: string
  generated_at :: string
  window_days :: int
  repos_total :: int
  repos :: "repo_info list"
  top_repos_30d :: "repo_rank list"
  top_contributors_30d :: "contributor list"

record config =
  ORG :: string
  WINDOW_DAYS :: int
  track_map :: track_map

datatype error =
    HTTPError int  \<comment> \<open>raised by \<^verbatim>\<open>raise_for_status\<close>, with the status\<close>
  | JSONDecodeError  \<comment> \<open>raised by \<^verbatim>\<open>r.json()\<close> on a body that is not JSON\<close>
  | RuntimeError  \<comment> \<open>raised by \<^verbatim>\<open>gql\<close> on a payload with \<^verbatim>\<open>"errors"\<close>\<close>
  | ValueError  \<comment> \<open>raised by \<^verbatim>\<open>owner, name = repo_full.split("/")\<close>\<close>

section \<open>API client\<close>

text \<open>
  The hosting provider is a state machine outside the program: a request maps the
  provider's state to a response and a new state. \<^verbatim>\<open>raise_for_status\<close> of the HTTP library
  raises for the client and server error statuses, 400 to 599. A body is \<open>None\<close> when it is
  not JSON; a body that is JSON has the shape of its endpoint.
\<close>

definition raise_for_status :: "int \<Rightarrow> bool" where
  "raise_for_status status \<longleftrightarrow> 400 \<le> status \<and> status < 600"

record repositories_page =
  nodes :: "node list"
  endCursor :: "string option"
  hasNextPage :: bool

record gql_payload =
  errors :: bool  \<comment> \<open>\<^verbatim>\<open>"errors" in j\<close>\<close>
  data :: repositories_page  \<comment> \<open>\<^verbatim>\<open>j["data"]["organization"]["repositories"]\<close>\<close>

record gql_response =
  gql_status_code :: int
  gql_json :: "gql_payload option"

type_synonym 's graphql = "'s \<Rightarrow> string \<Rightarrow> string option \<Rightarrow> gql_response \<times> 's"

definition gql :: "'s graphql \<Rightarrow> string \<Rightarrow> string option \<Rightarrow> 's \<Rightarrow> (error + repositories_page) \<times> 's" where
  "gql post org_name cursor w =
     (let (r, w') = post w org_name cursor in
      if raise_for_status (gql_status_code r) then (Inl (HTTPError (gql_status_code r)), w')
      else
        (case gql_json r of
           None \<Rightarrow> (Inl JSONDecodeError, w')
         | Some j \<Rightarrow> if errors j then (Inl RuntimeError, w') else (Inr (data j), w')))"

definition node_repo :: "node \<Rightarrow> repo" where
  "node_repo n =
     \<lparr>name = node_name n, full = nameWithOwner n, archived = isArchived n,
      disabled = isDisabled n, updatedAt = node_updatedAt n, pushedAt = node_pushedAt n,
      topics = repositoryTopics n\<rparr>"

partial_function (option) list_org_repos_from ::
  "'s graphql \<Rightarrow> string \<Rightarrow> string option \<Rightarrow> repo list \<Rightarrow> 's \<Rightarrow> ((error + repo list) \<times> 's) option" where
  "list_org_repos_from post org_name cursor acc w =
     (case gql post org_name cursor w of
        (Inl e, w') \<Rightarrow> Some (Inl e, w')
      | (Inr rs, w') \<Rightarrow>
          (let acc' = acc @ map node_repo (nodes rs) in
           if \<not> hasNextPage rs then Some (Inr acc', w')
           else list_org_repos_from post org_name (endCursor rs) acc' w'))"

declare list_org_repos_from.simps [code]

definition list_org_repos :: "'s graphql \<Rightarrow> string \<Rightarrow> 's \<Rightarrow> ((error + repo list) \<times> 's) option" where
  "list_org_repos post org_name w = list_org_repos_from post org_name None [] w"

record response =
  status_code :: int
  json :: "commit list option"
  links_next :: "string option"  \<comment> \<open>\<^verbatim>\<open>r.links.get("next", {}).get("url")\<close>\<close>

type_synonym 's rest = "'s \<Rightarrow> string \<Rightarrow> (string \<times> string) list option \<Rightarrow> response \<times> 's"

partial_function (option) commit_activity_from ::
  "'s rest \<Rightarrow> string \<Rightarrow> (string \<times> string) list option \<Rightarrow> commit list \<Rightarrow> 's
     \<Rightarrow> ((error + commit list) \<times> 's) option" where
  "commit_activity_from get url params acc w =
     (case get w url params of
        (r, w') \<Rightarrow>
          if status_code r = 409 then Some (Inr [], w')
          else if raise_for_status (status_code r) then Some (Inl (HTTPError (status_code r)), w')
          else
            (case json r of
               None \<Rightarrow> Some (Inl JSONDecodeError, w')
             | Some page \<Rightarrow>
                 (let acc' = acc @ page in
                  case links_next r of
                    None \<Rightarrow> Some (Inr acc', w')
                  | Some nxt \<Rightarrow>
                      if nxt = [] then Some (Inr acc', w')
                      else commit_activity_from get nxt None acc' w')))"

declare commit_activity_from.simps [code]

definition commit_activity :: "'s rest \<Rightarrow> string \<Rightarrow> string \<Rightarrow> 's \<Rightarrow> ((error + commit list) \<times> 's) option" where
  "commit_activity get repo_full since_iso w =
     (case split_slash repo_full of
        [owner, nm] \<Rightarrow>
          commit_activity_from get
            (''https://api.github.com/repos/'' @ owner @ ''/'' @ nm @ ''/commits'')
            (Some [(''since'', since_iso), (''per_page'', ''100'')]) [] w
      | _ \<Rightarrow> Some (Inl ValueError, w))"

section \<open>Aggregator\<close>

text \<open>
  A Python dictionary keeps its keys in insertion order, and the leaderboards depend on
  that order, so \<^verbatim>\<open>defaultdict(int)\<close> is an association list: \<^verbatim>\<open>d[k] += v\<close> updates the
  entry of \<open>k\<close> in place, or appends \<open>(k, 0 + v)\<close> when \<open>k\<close> is new.
\<close>

fun add_count :: "(string \<times> int) list \<Rightarrow> string \<Rightarrow> int \<Rightarrow> (string \<times> int) list" where
  "add_count [] k v = [(k, 0 + v)]"
| "add_count ((k', v') # d) k v =
     (if k' = k then (k', v' + v) # d else (k', v') # add_count d k v)"

definition author :: "commit \<Rightarrow> string" where
  \<comment> \<open>the linked account's login when there is a non-empty one, else the raw author name,
      else \<^verbatim>\<open>"unknown"\<close>\<close>
  "author c =
     (let fallback = (case commit_author_name c of None \<Rightarrow> ''unknown'' | Some n \<Rightarrow> n) in
      case author_login c of
        None \<Rightarrow> fallback
      | Some l \<Rightarrow> if l \<noteq> [] then l else fallback)"

fun scan_commits ::
  "commit list \<Rightarrow> (string \<times> int) list \<Rightarrow> string option \<Rightarrow> (string \<times> int) list \<times> string option" where
  "scan_commits [] by_author last_commit_iso = (by_author, last_commit_iso)"
| "scan_commits (c # cs) by_author last_commit_iso =
     (let dt = commit_author_date c in
      scan_commits cs (add_count by_author (author c) 1)
        (case last_commit_iso of
           None \<Rightarrow> Some dt
         | Some l \<Rightarrow> if l = [] \<or> dt > l then Some dt else Some l))"

definition sorted_reverse :: "('a \<Rightarrow> int) \<Rightarrow> 'a list \<Rightarrow> 'a list" where
  \<comment> \<open>\<^verbatim>\<open>sorted(xs, key=key, reverse=True)\<close>: descending, and elements with equal keys keep
      their original order\<close>
  "sorted_reverse key xs = sort_key (\<lambda>x. - key x) xs"

definition or_else :: "string option \<Rightarrow> string \<Rightarrow> string" where
  \<comment> \<open>\<^verbatim>\<open>a or b\<close> on an optional string: \<open>None\<close> and the empty string are false\<close>
  "or_else a b = (case a of None \<Rightarrow> b | Some x \<Rightarrow> if x = [] then b else x)"

definition repo_summary :: "(string \<Rightarrow> string) \<Rightarrow> track_map \<Rightarrow> repo \<Rightarrow> commit list \<Rightarrow> repo_info" where
  "repo_summary lower tm r cs =
     (case scan_commits cs [] None of
        (by_author, last_commit_iso) \<Rightarrow>
          \<lparr>info_name = name r, info_full = full r, info_topics = topics r,
           track = infer_track lower tm (name r) (topics r),
           commits_count = int (length cs),
           contributors = map (\<lambda>(k, v). \<lparr>login = k, commits = v\<rparr>) (sorted_reverse snd by_author),
           last_commit_at = or_else last_commit_iso (or_else (pushedAt r) ''N/A'')\<rparr>)"

record totals =
  contributor_totals :: "(string \<times> int) list"
  repo_activity :: "(string \<times> int) list"
  stats_repos :: "repo_info list"  \<comment> \<open>\<^verbatim>\<open>org_stats["repos"]\<close>\<close>

definition process_repo :: "(string \<Rightarrow> string) \<Rightarrow> track_map \<Rightarrow> repo \<Rightarrow> commit list \<Rightarrow> totals \<Rightarrow> totals" where
  \<comment> \<open>the body of the loop over the repositories, after the commits have been fetched\<close>
  "process_repo lower tm r cs st =
     (let repo_info = repo_summary lower tm r cs in
      \<lparr>contributor_totals =
         fold (\<lambda>(k, v) d. add_count d k v) (fst (scan_commits cs [] None)) (contributor_totals st),
       repo_activity = repo_activity st @ [(info_name repo_info, commits_count repo_info)],
       stats_repos = stats_repos st @ [repo_info]\<rparr>)"

fun main_loop ::
  "(string \<Rightarrow> string) \<Rightarrow> track_map \<Rightarrow> 's rest \<Rightarrow> string \<Rightarrow> repo list \<Rightarrow> totals \<Rightarrow> 's \<Rightarrow> ((error + totals) \<times> 's) option" where
  "main_loop lower tm get since_iso [] st w = Some (Inr st, w)"
| "main_loop lower tm get since_iso (r # rs) st w =
     (if archived r \<or> disabled r then main_loop lower tm get since_iso rs st w
      else
        (case commit_activity get (full r) since_iso w of
           None \<Rightarrow> None
         | Some (Inl e, w') \<Rightarrow> Some (Inl e, w')
         | Some (Inr cs, w') \<Rightarrow> main_loop lower tm get since_iso rs (process_repo lower tm r cs st) w'))"

section \<open>Report builder\<close>

definition report :: "config \<Rightarrow> string \<Rightarrow> repo list \<Rightarrow> totals \<Rightarrow> org_stats" where
  "report cfg now_iso rs st =
     \<lparr>org = ORG cfg, generated_at = now_iso, window_days = WINDOW_DAYS cfg,
      repos_total = int (length rs), repos = stats_repos st,
      top_repos_30d =
        take 10 (sorted_reverse rank_commits
          (map (\<lambda>(n, c). \<lparr>rank_repo = n, rank_commits = c\<rparr>) (repo_activity st))),
      top_contributors_30d =
        take 15 (sorted_reverse commits
          (map (\<lambda>(k, v). \<lparr>login = k, commits = v\<rparr>) (contributor_totals st)))\<rparr>"

definition main_from ::
  "(string \<Rightarrow> string) \<Rightarrow> config \<Rightarrow> 's rest \<Rightarrow> string \<Rightarrow> string \<Rightarrow> repo list \<Rightarrow> 's \<Rightarrow> (error + org_stats) option" where
  \<comment> \<open>\<^verbatim>\<open>main\<close> from the point where the repositories have been enumerated\<close>
  "main_from lower cfg get now_iso since_iso rs w =
     (case main_loop lower (track_map cfg) get since_iso rs
             \<lparr>contributor_totals = [], repo_activity = [], stats_repos = []\<rparr> w of
        None \<Rightarrow> None
      | Some (Inl e, w') \<Rightarrow> Some (Inl e)
      | Some (Inr st, w') \<Rightarrow> Some (Inr (report cfg now_iso rs st)))"

definition main ::
  "(string \<Rightarrow> string) \<Rightarrow> config \<Rightarrow> 's graphql \<Rightarrow> 's rest \<Rightarrow> string \<Rightarrow> string \<Rightarrow> 's \<Rightarrow> (error + org_stats) option" where
  \<comment> \<open>\<open>now_iso\<close> and \<open>since_iso\<close> are the two timestamps read off the clock; the result is the
      document written to \<^verbatim>\<open>public/stats.json\<close>, \<open>None\<close> when a pagination never ends\<close>
  "main lower cfg post get now_iso since_iso w =
     (case list_org_repos post (ORG cfg) w of
        None \<Rightarrow> None
      | Some (Inl e, w') \<Rightarrow> Some (Inl e)
      | Some (Inr rs, w') \<Rightarrow> main_from lower cfg get now_iso since_iso rs w')"

section \<open>Notions used to state the properties\<close>

text \<open>
  The order in which the elements of a list are first met: every element once, at the
  place of its first occurrence.
\<close>

fun encounter_order :: "'a list \<Rightarrow> 'a list" where
  "encounter_order [] = []"
| "encounter_order (x # xs) = x # filter (\<lambda>y. y \<noteq> x) (encounter_order xs)"

text \<open>\<^verbatim>\<open>for k, v in items: d[k] += v\<close>\<close>

definition add_counts :: "(string \<times> int) list \<Rightarrow> (string \<times> int) list \<Rightarrow> (string \<times> int) list" where
  "add_counts kvs d = fold (\<lambda>(k, v) d. add_count d k v) kvs d"

text \<open>The dictionary \<^verbatim>\<open>by_author\<close> after the loop over the commits of one repository.\<close>

definition by_author_of :: "commit list \<Rightarrow> (string \<times> int) list" where
  "by_author_of cs = fst (scan_commits cs [] None)"

text \<open>The loop body applied to a sequence of repositories whose commits are given.\<close>

definition run_totals ::
  "(string \<Rightarrow> string) \<Rightarrow> track_map \<Rightarrow> (repo \<times> commit list) list \<Rightarrow> totals \<Rightarrow> totals" where
  "run_totals lower tm ps st = fold (\<lambda>(r, cs). process_repo lower tm r cs) ps st"

text \<open>
  The trace of a run that completes: the repositories for which the loop fetches commits,
  in order, each with the commit list that \<^verbatim>\<open>commit_activity\<close> returned for it. It is
  \<open>None\<close> when a fetch raises or never returns.
\<close>

fun fetched :: "'s rest \<Rightarrow> string \<Rightarrow> repo list \<Rightarrow> 's \<Rightarrow> (repo \<times> commit list) list option" where
  "fetched get since_iso [] w = Some []"
| "fetched get since_iso (r # rs) w =
     (if archived r \<or> disabled r then fetched get since_iso rs w
      else
        (case commit_activity get (full r) since_iso w of
           Some (Inr cs, w') \<Rightarrow>
             (case fetched get since_iso rs w' of None \<Rightarrow> None | Some ps \<Rightarrow> Some ((r, cs) # ps))
         | _ \<Rightarrow> None))"

text \<open>
  The pagination of \<^verbatim>\<open>commit_activity\<close>, page by page. \<open>pages_served\<close> is the state of its
  loop after \<open>k\<close> pages that were each served in full: neither the status 409 nor an
  error status, a JSON body, and a non-empty link to a next page. \<open>page_response\<close> is the
  provider's response to the request that follows these \<open>k\<close> pages, the first request
  when \<open>k\<close> is 0.
\<close>

fun pages_served ::
  "'s rest \<Rightarrow> nat \<Rightarrow> string \<Rightarrow> (string \<times> string) list option \<Rightarrow> commit list \<Rightarrow> 's
     \<Rightarrow> (string \<times> (string \<times> string) list option \<times> commit list \<times> 's) option" where
  "pages_served get 0 url params acc w = Some (url, params, acc, w)"
| "pages_served get (Suc k) url params acc w =
     (case get w url params of
        (r, w') \<Rightarrow>
          if status_code r = 409 \<or> raise_for_status (status_code r) then None
          else
            (case json r of
               None \<Rightarrow> None
             | Some page \<Rightarrow>
                 (case links_next r of
                    None \<Rightarrow> None
                  | Some nxt \<Rightarrow> if nxt = [] then None else pages_served get k nxt None (acc @ page) w')))"

definition page_response :: "'s rest \<Rightarrow> string \<Rightarrow> string \<Rightarrow> nat \<Rightarrow> 's \<Rightarrow> (response \<times> 's) option" where
  "page_response get repo_full since_iso k w =
     (case split_slash repo_full of
        [owner, nm] \<Rightarrow>
          (case pages_served get k
                  (''https://api.github.com/repos/'' @ owner @ ''/'' @ nm @ ''/commits'')
                  (Some [(''since'', since_iso), (''per_page'', ''100'')]) [] w of
             None \<Rightarrow> None
           | Some (url, params, acc, w1) \<Rightarrow> Some (get w1 url params))
      | _ \<Rightarrow> None)"

text \<open>
  The entries of the track file as pairs (repository, track), in the order in which the
  two nested loops of the loading code visit them, and the track that the file gives a
  repository name when names are compared without regard to case: the track of the last
  entry that lists the name.
\<close>

definition track_entries :: "(string \<times> string list option) list option \<Rightarrow> (string \<times> string) list" where
  "track_entries raw =
     concat (map (\<lambda>(track, repos). map (\<lambda>r. (r, track)) (case repos of None \<Rightarrow> [] | Some rs \<Rightarrow> rs))
                 (case raw of None \<Rightarrow> [] | Some kvs \<Rightarrow> kvs))"

definition mapped_track ::
  "(string \<Rightarrow> string) \<Rightarrow> (string \<times> string list option) list option \<Rightarrow> string \<Rightarrow> string option" where
  "mapped_track lower raw repo_name =
     (let es = filter (\<lambda>(r, t). lower r = lower repo_name) (track_entries raw) in
      if es = [] then None else Some (snd (last es)))"

section \<open>Example runs\<close>

text \<open>
  All names in the examples are ASCII text. The first provider serves an organisation with four repositories: \<open>repo-a\<close> has four
  commits in the window, on two pages; \<open>repo-b\<close> is archived; \<open>repo-c\<close> is empty (the
  provider answers 409); \<open>repo-y\<close> has never been pushed to and is listed in the track
  file as \<open>Repo-Y\<close>. The second serves any number of repositories, each with one commit by
  each of 16 contributors. The third answers every request with the status 300 and a
  page of one commit. The last serves one page of \<open>repo-a\<close> with a link to a second page,
  and answers every other request with a given status and no body.
\<close>

definition ascii_lower :: "string \<Rightarrow> string" where
  \<comment> \<open>\<^verbatim>\<open>str.lower\<close> on ASCII text, which is all the examples hold: the letters A to Z are
      mapped to a to z\<close>
  "ascii_lower s =
     map (\<lambda>c. let n = (of_char c :: nat) in if 65 \<le> n \<and> n \<le> 90 then char_of (n + 32) else c) s"

definition ex_commit :: "string option \<Rightarrow> string option \<Rightarrow> string \<Rightarrow> commit" where
  "ex_commit l n d = \<lparr>author_login = l, commit_author_name = n, commit_author_date = d\<rparr>"

definition ex_node :: "string \<Rightarrow> bool \<Rightarrow> bool \<Rightarrow> string option \<Rightarrow> string list \<Rightarrow> node" where
  "ex_node n a d p ts =
     \<lparr>node_name = n, nameWithOwner = ''team1/'' @ n, isArchived = a, isDisabled = d,
      node_updatedAt = ''2025-09-03T08:00:00Z'', node_pushedAt = p, repositoryTopics = ts\<rparr>"

definition ex_cfg :: config where
  "ex_cfg = \<lparr>ORG = ''team1'', WINDOW_DAYS = 30,
             track_map = load_track_map ascii_lower (Some [(''tooling'', Some [''Repo-Y''])])\<rparr>"

definition ex_post :: "unit graphql" where
  "ex_post w org_name cursor =
     (\<lparr>gql_status_code = 200,
       gql_json = Some \<lparr>errors = False,
         data = \<lparr>nodes =
           [ex_node ''repo-a'' False False (Some ''2025-09-02T10:00:00Z'') [''defi'', ''track-backend''],
            ex_node ''repo-b'' True False (Some ''2024-01-05T09:30:00Z'') [],
            ex_node ''repo-c'' False False (Some ''2025-08-01T12:00:00Z'') [],
            ex_node ''repo-y'' False False None []],
           endCursor = None, hasNextPage = False\<rparr>\<rparr>\<rparr>, w)"

definition ex_get :: "unit rest" where
  "ex_get w url params =
     (if url = ''https://api.github.com/repos/team1/repo-a/commits'' then
        \<lparr>status_code = 200,
         json = Some [ex_commit (Some ''bob'') (Some ''Bob B'') ''2025-08-20T10:00:00Z'',
                      ex_commit (Some ''alice'') None ''2025-08-25T10:00:00Z''],
         links_next = Some ''https://api.github.com/repositories/1/commits?page=2''\<rparr>
      else if url = ''https://api.github.com/repositories/1/commits?page=2'' then
        \<lparr>status_code = 200,
         json = Some [ex_commit None (Some ''Carol'') ''2025-08-22T10:00:00Z'',
                      ex_commit (Some ''alice'') None ''2025-08-21T10:00:00Z''],
         links_next = None\<rparr>
      else if url = ''https://api.github.com/repos/team1/repo-c/commits'' then
        \<lparr>status_code = 409, json = None, links_next = None\<rparr>
      else \<lparr>status_code = 200, json = Some [], links_next = None\<rparr>, w)"

definition ex_now :: string where
  "ex_now = ''2025-09-04T12:00:00.000000Z''"

definition ex_since :: string where
  "ex_since = ''2025-08-05T12:00:00Z''"

definition ex_repos :: "repo list" where
  "ex_repos =
     [\<lparr>name = ''repo-a'', full = ''team1/repo-a'', archived = False, disabled = False,
       updatedAt = ''2025-09-03T08:00:00Z'', pushedAt = Some ''2025-09-02T10:00:00Z'',
       topics = [''defi'', ''track-backend'']\<rparr>,
      \<lparr>name = ''repo-b'', full = ''team1/repo-b'', archived = True, disabled = False,
       updatedAt = ''2025-09-03T08:00:00Z'', pushedAt = Some ''2024-01-05T09:30:00Z'', topics = []\<rparr>,
      \<lparr>name = ''repo-c'', full = ''team1/repo-c'', archived = False, disabled = False,
       updatedAt = ''2025-09-03T08:00:00Z'', pushedAt = Some ''2025-08-01T12:00:00Z'', topics = []\<rparr>,
      \<lparr>name = ''repo-y'', full = ''team1/repo-y'', archived = False, disabled = False,
       updatedAt = ''2025-09-03T08:00:00Z'', pushedAt = None, topics = []\<rparr>]"

definition ex_commits_a :: "commit list" where
  "ex_commits_a =
     [ex_commit (Some ''bob'') (Some ''Bob B'') ''2025-08-20T10:00:00Z'',
      ex_commit (Some ''alice'') None ''2025-08-25T10:00:00Z'',
      ex_commit None (Some ''Carol'') ''2025-08-22T10:00:00Z'',
      ex_commit (Some ''alice'') None ''2025-08-21T10:00:00Z'']"

definition ex_report :: org_stats where
  "ex_report =
     \<lparr>org = ''team1'', generated_at = ex_now, window_days = 30, repos_total = 4,
      repos =
        [\<lparr>info_name = ''repo-a'', info_full = ''team1/repo-a'',
          info_topics = [''defi'', ''track-backend''], track = Some ''backend'', commits_count = 4,
          contributors =
            [\<lparr>login = ''alice'', commits = 2\<rparr>, \<lparr>login = ''bob'', commits = 1\<rparr>,
             \<lparr>login = ''Carol'', commits = 1\<rparr>],
          last_commit_at = ''2025-08-25T10:00:00Z''\<rparr>,
         \<lparr>info_name = ''repo-c'', info_full = ''team1/repo-c'', info_topics = [], track = None,
          commits_count = 0, contributors = [], last_commit_at = ''2025-08-01T12:00:00Z''\<rparr>,
         \<lparr>info_name = ''repo-y'', info_full = ''team1/repo-y'', info_topics = [],
          track = Some ''tooling'', commits_count = 0, contributors = [], last_commit_at = ''N/A''\<rparr>],
      top_repos_30d =
        [\<lparr>rank_repo = ''repo-a'', rank_commits = 4\<rparr>, \<lparr>rank_repo = ''repo-c'', rank_commits = 0\<rparr>,
         \<lparr>rank_repo = ''repo-y'', rank_commits = 0\<rparr>],
      top_contributors_30d =
        [\<lparr>login = ''alice'', commits = 2\<rparr>, \<lparr>login = ''bob'', commits = 1\<rparr>,
         \<lparr>login = ''Carol'', commits = 1\<rparr>]\<rparr>"

definition many_authors :: "string list" where
  "many_authors =
     [''u01'', ''u02'', ''u03'', ''u04'', ''u05'', ''u06'', ''u07'', ''u08'',
      ''u09'', ''u10'', ''u11'', ''u12'', ''u13'', ''u14'', ''u15'', ''u16'']"

definition many_repos :: "string list" where
  "many_repos =
     [''r01'', ''r02'', ''r03'', ''r04'', ''r05'', ''r06'', ''r07'', ''r08'', ''r09'', ''r10'', ''r11'']"

definition many_post :: "string list \<Rightarrow> unit graphql" where
  "many_post names w org_name cursor =
     (\<lparr>gql_status_code = 200,
       gql_json = Some \<lparr>errors = False,
         data = \<lparr>nodes = map (\<lambda>n. ex_node n False False None []) names,
                 endCursor = None, hasNextPage = False\<rparr>\<rparr>\<rparr>, w)"

definition many_get :: "unit rest" where
  "many_get w url params =
     (\<lparr>status_code = 200,
       json = Some (map (\<lambda>u. ex_commit (Some u) None ''2025-08-20T10:00:00Z'') many_authors),
       links_next = None\<rparr>, w)"

definition many_summary :: "string \<Rightarrow> repo_info" where
  "many_summary n =
     \<lparr>info_name = n, info_full = ''team1/'' @ n, info_topics = [], track = None,
      commits_count = 16,
      contributors = map (\<lambda>u. \<lparr>login = u, commits = 1\<rparr>) many_authors,
      last_commit_at = ''2025-08-20T10:00:00Z''\<rparr>"

definition solo_report :: org_stats where
  "solo_report =
     \<lparr>org = ''team1'', generated_at = ex_now, window_days = 30, repos_total = 1,
      repos = [many_summary ''solo''],
      top_repos_30d = [\<lparr>rank_repo = ''solo'', rank_commits = 16\<rparr>],
      top_contributors_30d = map (\<lambda>u. \<lparr>login = u, commits = 1\<rparr>) (take 15 many_authors)\<rparr>"

definition many_report :: org_stats where
  "many_report =
     \<lparr>org = ''team1'', generated_at = ex_now, window_days = 30, repos_total = 11,
      repos = map many_summary many_repos,
      top_repos_30d = map (\<lambda>n. \<lparr>rank_repo = n, rank_commits = 16\<rparr>) (take 10 many_repos),
      top_contributors_30d = map (\<lambda>u. \<lparr>login = u, commits = 11\<rparr>) (take 15 many_authors)\<rparr>"

definition multiple_choices_get :: "unit rest" where
  "multiple_choices_get w url params =
     (\<lparr>status_code = 300,
       json = Some [ex_commit (Some ''alice'') None ''2025-08-25T10:00:00Z''],
       links_next = None\<rparr>, w)"

definition late_get :: "int \<Rightarrow> unit rest" where
  "late_get status w url params =
     (if url = ''https://api.github.com/repos/team1/repo-a/commits'' then
        \<lparr>status_code = 200,
         json = Some [ex_commit (Some ''bob'') (Some ''Bob B'') ''2025-08-20T10:00:00Z''],
         links_next = Some ''https://api.github.com/repositories/1/commits?page=2''\<rparr>
      else \<lparr>status_code = status, json = None, links_next = None\<rparr>, w)"

lemma set_encounter_order: "set (encounter_order xs) = set xs"
  by (induction xs) auto

lemma distinct_encounter_order: "distinct (encounter_order xs)"
  by (induction xs) (auto simp: set_encounter_order)

lemma encounter_order_append:
  "encounter_order (xs @ ys) = encounter_order xs @ filter (\<lambda>y. y \<notin> set xs) (encounter_order ys)"
proof (induction xs)
  case Nil
  then show ?case by simp
next
  case (Cons x xs)
  have "filter (\<lambda>y. y \<noteq> x) (filter (\<lambda>y. y \<notin> set xs) (encounter_order ys))
        = filter (\<lambda>y. y \<notin> set (x # xs)) (encounter_order ys)"
    by (auto intro: filter_cong)
  with Cons show ?case by simp
qed

lemma encounter_order_distinct: "distinct xs \<Longrightarrow> encounter_order xs = xs"
  by (induction xs) (auto simp: set_encounter_order filter_id_conv)

lemma encounter_order_idem: "encounter_order (encounter_order xs) = encounter_order xs"
  by (simp add: encounter_order_distinct distinct_encounter_order)

lemma encounter_order_concat:
  "encounter_order (concat (map encounter_order xss)) = encounter_order (concat xss)"
  by (induction xss) (simp_all add: encounter_order_append encounter_order_idem set_encounter_order)

subsection \<open>Counting in a dictionary\<close>

lemma keys_add_count:
  "map fst (add_count d k v) = map fst d @ (if k \<in> set (map fst d) then [] else [k])"
  by (induction d k v rule: add_count.induct) auto

lemma sum_add_count: "sum_list (map snd (add_count d k v)) = sum_list (map snd d) + v"
  by (induction d k v rule: add_count.induct) auto

lemma nonneg_add_count:
  "\<forall>x\<in>set d. 0 \<le> snd x \<Longrightarrow> 0 \<le> v \<Longrightarrow> \<forall>x\<in>set (add_count d k v). 0 \<le> snd x"
  by (induction d k v rule: add_count.induct) auto

lemma keys_add_counts:
  "map fst (add_counts kvs d) =
     map fst d @ filter (\<lambda>k. k \<notin> set (map fst d)) (encounter_order (map fst kvs))"
proof (induction kvs arbitrary: d)
  case Nil
  then show ?case by (simp add: add_counts_def)
next
  case (Cons kv kvs)
  obtain k v where kv: "kv = (k, v)" by (cases kv)
  have step: "add_counts ((k, v) # kvs) d = add_counts kvs (add_count d k v)"
    by (simp add: add_counts_def)
  show ?case
  proof (cases "k \<in> set (map fst d)")
    case True
    have "filter (\<lambda>k. k \<notin> set (map fst d)) (filter (\<lambda>y. y \<noteq> k) (encounter_order (map fst kvs)))
          = filter (\<lambda>k. k \<notin> set (map fst d)) (encounter_order (map fst kvs))"
      using True by (auto intro: filter_cong)
    with True show ?thesis
      by (simp add: step Cons.IH keys_add_count kv)
  next
    case False
    have "filter (\<lambda>x. x \<notin> set (map fst d) \<and> x \<noteq> k) (encounter_order (map fst kvs))
          = filter (\<lambda>k. k \<notin> set (map fst d)) (filter (\<lambda>y. y \<noteq> k) (encounter_order (map fst kvs)))"
      by (auto intro: filter_cong)
    with False show ?thesis
      by (simp add: step Cons.IH keys_add_count kv)
  qed
qed

lemma sum_add_counts:
  "sum_list (map snd (add_counts kvs d)) = sum_list (map snd d) + sum_list (map snd kvs)"
  by (induction kvs arbitrary: d) (auto simp: add_counts_def sum_add_count)

lemma nonneg_add_counts:
  "\<forall>x\<in>set d. 0 \<le> snd x \<Longrightarrow> \<forall>x\<in>set kvs. 0 \<le> snd x \<Longrightarrow> \<forall>x\<in>set (add_counts kvs d). 0 \<le> snd x"
proof (induction kvs arbitrary: d)
  case Nil
  then show ?case by (simp add: add_counts_def)
next
  case (Cons kv kvs)
  obtain k v where kv: "kv = (k, v)" by (cases kv)
  have "\<forall>x\<in>set (add_count d k v). 0 \<le> snd x"
    using Cons.prems kv by (intro nonneg_add_count) auto
  then have "\<forall>x\<in>set (add_counts kvs (add_count d k v)). 0 \<le> snd x"
    using Cons.prems by (intro Cons.IH) auto
  then show ?case by (simp add: add_counts_def kv)
qed

lemma add_counts_append: "add_counts (xs @ ys) d = add_counts ys (add_counts xs d)"
  by (simp add: add_counts_def)

lemma scan_commits_by_author:
  "fst (scan_commits cs d l) = add_counts (map (\<lambda>c. (author c, 1)) cs) d"
  by (induction cs arbitrary: d l) (auto simp: add_counts_def Let_def)

lemma sum_list_ones: "(\<Sum>x\<leftarrow>xs. (1::int)) = int (length xs)"
  by (induction xs) auto

lemma keys_by_author_of: "map fst (by_author_of cs) = encounter_order (map author cs)"
  by (simp add: by_author_of_def scan_commits_by_author keys_add_counts comp_def)

lemma sum_by_author_of: "sum_list (map snd (by_author_of cs)) = int (length cs)"
  by (simp add: by_author_of_def scan_commits_by_author sum_add_counts comp_def sum_list_ones)

lemma nonneg_by_author_of: "\<forall>x\<in>set (by_author_of cs). 0 \<le> snd x"
  unfolding by_author_of_def scan_commits_by_author
  by (rule nonneg_add_counts) auto

subsection \<open>Sorting in descending order\<close>

lemma sum_list_insort_key:
  "sum_list (map g (insort_key f x xs)) = (g x :: int) + sum_list (map g xs)"
  by (induction xs) auto

lemma sum_list_sort_key: "sum_list (map g (sort_key f xs)) = (sum_list (map g xs) :: int)"
  by (induction xs) (auto simp: sum_list_insort_key)

lemma sum_list_take_le:
  "\<forall>x\<in>set xs. (0::int) \<le> x \<Longrightarrow> sum_list (take n xs) \<le> sum_list xs"
proof -
  assume nonneg: "\<forall>x\<in>set xs. (0::int) \<le> x"
  have "sum_list xs = sum_list (take n xs) + sum_list (drop n xs)"
    by (metis append_take_drop_id sum_list_append)
  moreover have "0 \<le> sum_list (drop n xs)"
    using nonneg by (intro sum_list_nonneg) (auto dest: in_set_dropD)
  ultimately show ?thesis by simp
qed

lemma sorted_reverse_sorted: "sorted_wrt (\<lambda>a b. key b \<le> key a) (sorted_reverse key xs)"
proof -
  have "sorted (map (\<lambda>x. - key x) (sort_key (\<lambda>x. - key x) xs))"
    by (rule sorted_sort_key)
  then show ?thesis
    by (simp add: sorted_reverse_def sorted_map)
qed

lemma sorted_reverse_stable:
  "filter (\<lambda>y. key y = k) (sorted_reverse key xs) = filter (\<lambda>y. key y = k) xs"
  using sort_key_stable [of "\<lambda>x. - key x" "- k" xs] by (simp add: sorted_reverse_def)

lemma set_sorted_reverse: "set (sorted_reverse key xs) = set xs"
  by (simp add: sorted_reverse_def)

lemma length_sorted_reverse: "length (sorted_reverse key xs) = length xs"
  by (simp add: sorted_reverse_def)

lemma sum_sorted_reverse: "sum_list (map g (sorted_reverse key xs)) = (sum_list (map g xs) :: int)"
  by (simp add: sorted_reverse_def sum_list_sort_key)

lemma prefix_filter_take_sorted_reverse:
  "prefix (filter (\<lambda>e. key e = k) (take n (sorted_reverse key xs))) (filter (\<lambda>e. key e = k) xs)"
proof -
  have "prefix (filter (\<lambda>e. key e = k) (take n (sorted_reverse key xs)))
               (filter (\<lambda>e. key e = k) (sorted_reverse key xs))"
    by (intro filter_mono_prefix take_is_prefix)
  then show ?thesis by (simp only: sorted_reverse_stable)
qed

lemma sorted_take_sorted_reverse:
  "sorted_wrt (\<lambda>a b. key b \<le> key a) (take n (sorted_reverse key xs))"
  by (intro sorted_wrt_take sorted_reverse_sorted)

subsection \<open>The summary of one repository\<close>

lemma contributors_repo_summary:
  "contributors (repo_summary lower tm r cs) =
     map (\<lambda>(k, v). \<lparr>login = k, commits = v\<rparr>) (sorted_reverse snd (by_author_of cs))"
  by (simp add: repo_summary_def by_author_of_def split: prod.splits)

lemma commits_count_repo_summary: "commits_count (repo_summary lower tm r cs) = int (length cs)"
  by (simp add: repo_summary_def split: prod.splits)

lemma sum_contributors_repo_summary:
  "sum_list (map commits (contributors (repo_summary lower tm r cs))) = int (length cs)"
proof -
  have "map commits (map (\<lambda>(k, v). \<lparr>login = k, commits = v\<rparr>) kvs) = map snd kvs" for kvs
    by (induction kvs) auto
  then show ?thesis
    by (simp only: contributors_repo_summary sum_sorted_reverse sum_by_author_of)
qed

lemma logins_repo_summary:
  "login ` set (contributors (repo_summary lower tm r cs)) = set (map author cs)"
proof -
  have "login ` set (map (\<lambda>(k, v). \<lparr>login = k, commits = v\<rparr>) kvs) = set (map fst kvs)" for kvs
    by (induction kvs) auto
  then have "login ` set (contributors (repo_summary lower tm r cs)) = set (map fst (by_author_of cs))"
    by (simp only: contributors_repo_summary) (simp add: set_sorted_reverse)
  then show ?thesis
    by (simp only: keys_by_author_of set_encounter_order)
qed

lemma last_commit_at_no_commits:
  "last_commit_at (repo_summary lower tm r []) =
     (case pushedAt r of None \<Rightarrow> ''N/A'' | Some p \<Rightarrow> if p = [] then ''N/A'' else p)"
  by (simp add: repo_summary_def or_else_def split: option.splits)

lemma summary_ids: "(info_name (repo_summary lower tm r cs), info_full (repo_summary lower tm r cs)) = (name r, full r)"
  by (simp add: repo_summary_def split: prod.splits)

lemma commits_entries: "map commits (map (\<lambda>(k, v). \<lparr>login = k, commits = v\<rparr>) kvs) = map snd kvs"
  by (induction kvs) auto

lemma logins_entries: "map login (map (\<lambda>(k, v). \<lparr>login = k, commits = v\<rparr>) kvs) = map fst kvs"
  by (induction kvs) auto

subsection \<open>The loop over the repositories\<close>

lemma stats_repos_run_totals:
  "stats_repos (run_totals lower tm ps st) = stats_repos st @ map (\<lambda>(r, cs). repo_summary lower tm r cs) ps"
  by (induction ps arbitrary: st) (auto simp: run_totals_def process_repo_def Let_def)

lemma repo_activity_run_totals:
  "repo_activity (run_totals lower tm ps st) =
     repo_activity st @ map (\<lambda>(r, cs). (name r, int (length cs))) ps"
  by (induction ps arbitrary: st)
     (auto simp: run_totals_def process_repo_def Let_def repo_summary_def split: prod.splits)

lemma contributor_totals_run_totals:
  "contributor_totals (run_totals lower tm ps st) =
     add_counts (concat (map (\<lambda>(r, cs). by_author_of cs) ps)) (contributor_totals st)"
proof (induction ps arbitrary: st)
  case Nil
  then show ?case by (simp add: run_totals_def add_counts_def)
next
  case (Cons p ps)
  obtain r cs where p: "p = (r, cs)" by (cases p)
  have "run_totals lower tm ((r, cs) # ps) st = run_totals lower tm ps (process_repo lower tm r cs st)"
    by (simp add: run_totals_def)
  moreover have "contributor_totals (process_repo lower tm r cs st) =
                   add_counts (by_author_of cs) (contributor_totals st)"
    by (simp add: process_repo_def Let_def add_counts_def by_author_of_def)
  ultimately show ?case
    by (simp add: p Cons.IH add_counts_append)
qed

lemma keys_contributor_totals:
  "map fst (contributor_totals (run_totals lower tm ps
      \<lparr>contributor_totals = [], repo_activity = [], stats_repos = []\<rparr>)) =
   encounter_order (concat (map (\<lambda>(r, cs). map author cs) ps))"
proof -
  have "map fst (concat (map (\<lambda>(r, cs). by_author_of cs) ps))
        = concat (map encounter_order (map (\<lambda>(r, cs). map author cs) ps))"
    by (induction ps) (auto simp: keys_by_author_of)
  then have "encounter_order (map fst (concat (map (\<lambda>(r, cs). by_author_of cs) ps)))
             = encounter_order (concat (map (\<lambda>(r, cs). map author cs) ps))"
    by (simp only: encounter_order_concat)
  then show ?thesis
    by (simp add: contributor_totals_run_totals keys_add_counts)
qed

lemma sum_contributor_totals:
  "sum_list (map snd (contributor_totals (run_totals lower tm ps
      \<lparr>contributor_totals = [], repo_activity = [], stats_repos = []\<rparr>))) =
   sum_list (map (\<lambda>(r, cs). int (length cs)) ps)"
proof -
  have "sum_list (map snd (concat (map (\<lambda>(r, cs). by_author_of cs) ps)))
        = sum_list (map (\<lambda>(r, cs). int (length cs)) ps)"
    by (induction ps) (auto simp: sum_by_author_of)
  then show ?thesis
    by (simp add: contributor_totals_run_totals sum_add_counts)
qed

lemma nonneg_contributor_totals:
  "\<forall>x\<in>set (contributor_totals (run_totals lower tm ps
      \<lparr>contributor_totals = [], repo_activity = [], stats_repos = []\<rparr>)). 0 \<le> snd x"
proof -
  have "\<forall>x\<in>set (concat (map (\<lambda>(r, cs). by_author_of cs) ps)). 0 \<le> snd x"
    using nonneg_by_author_of by (fastforce simp: split_def)
  then show ?thesis
    unfolding contributor_totals_run_totals by (intro nonneg_add_counts) auto
qed

lemma entries_of_activity:
  "map (\<lambda>(n, c). \<lparr>rank_repo = n, rank_commits = c\<rparr>) (map (\<lambda>(r, cs). (name r, int (length cs))) ps) =
   map (\<lambda>s. \<lparr>rank_repo = info_name s, rank_commits = commits_count s\<rparr>)
       (map (\<lambda>(r, cs). repo_summary lower tm r cs) ps)"
  by (induction ps) (auto simp: repo_summary_def split: prod.splits)

lemma main_loop_fetched:
  "main_loop lower tm get since_iso rs st w = Some (Inr st', w') \<Longrightarrow>
   \<exists>ps. fetched get since_iso rs w = Some ps \<and> st' = run_totals lower tm ps st"
proof (induction rs arbitrary: st w)
  case Nil
  then show ?case by (simp add: run_totals_def)
next
  case (Cons r rs)
  show ?case
  proof (cases "archived r \<or> disabled r")
    case True
    with Cons show ?thesis by simp
  next
    case False
    from Cons.prems False obtain cs w1 where
      fetch: "commit_activity get (full r) since_iso w = Some (Inr cs, w1)" and
      rest: "main_loop lower tm get since_iso rs (process_repo lower tm r cs st) w1 = Some (Inr st', w')"
      by (auto split: option.splits sum.splits prod.splits)
    from Cons.IH [OF rest] obtain ps where
      "fetched get since_iso rs w1 = Some ps" "st' = run_totals lower tm ps (process_repo lower tm r cs st)"
      by blast
    with False fetch show ?thesis
      by (simp add: run_totals_def)
  qed
qed

lemma fetched_repos:
  "fetched get since_iso rs w = Some ps \<Longrightarrow>
   map fst ps = filter (\<lambda>r. \<not> (archived r \<or> disabled r)) rs"
  by (induction rs arbitrary: w ps) (auto split: option.splits sum.splits prod.splits if_splits)

lemma main_loop_skips:
  "main_loop lower tm get since_iso rs st w =
   main_loop lower tm get since_iso (filter (\<lambda>r. \<not> (archived r \<or> disabled r)) rs) st w"
  by (induction rs arbitrary: st w) (auto split: option.splits sum.splits prod.splits)

subsection \<open>The pagination of the commits\<close>

lemma commit_activity_from_pages_served:
  "pages_served get k url params acc w = Some (url', params', acc', w1) \<Longrightarrow>
   commit_activity_from get url params acc w = commit_activity_from get url' params' acc' w1"
proof (induction k arbitrary: url params acc w)
  case 0
  then show ?case by simp
next
  case (Suc k)
  obtain r w' where get: "get w url params = (r, w')" by (cases "get w url params")
  from Suc.prems get obtain page nxt where
    ok: "status_code r \<noteq> 409" "\<not> raise_for_status (status_code r)"
      "json r = Some page" "links_next r = Some nxt" "nxt \<noteq> []" and
    rest: "pages_served get k nxt None (acc @ page) w' = Some (url', params', acc', w1)"
    by (auto split: if_splits option.splits)
  have "commit_activity_from get url params acc w = commit_activity_from get nxt None (acc @ page) w'"
    using get ok by (subst commit_activity_from.simps) simp
  with Suc.IH [OF rest] show ?case by simp
qed

lemma commit_activity_at_page:
  assumes "page_response get repo_full since_iso k w = Some (r, w')"
  shows "\<exists>url params acc w1.
           commit_activity get repo_full since_iso w = commit_activity_from get url params acc w1
           \<and> get w1 url params = (r, w')"
proof -
  from assms obtain owner nm url params acc w1 where
    split: "split_slash repo_full = [owner, nm]" and
    served: "pages_served get k
               (''https://api.github.com/repos/'' @ owner @ ''/'' @ nm @ ''/commits'')
               (Some [(''since'', since_iso), (''per_page'', ''100'')]) [] w = Some (url, params, acc, w1)" and
    get: "get w1 url params = (r, w')"
    by (auto simp: page_response_def split: list.splits option.splits)
  have "commit_activity get repo_full since_iso w = commit_activity_from get url params acc w1"
    using commit_activity_from_pages_served [OF served] split by (simp add: commit_activity_def)
  with get show ?thesis by blast
qed

lemma commit_activity_conflict:
  assumes "page_response get repo_full since_iso k w = Some (r, w')" and "status_code r = 409"
  shows "commit_activity get repo_full since_iso w = Some (Inr [], w')"
proof -
  from commit_activity_at_page [OF assms(1)] obtain url params acc w1 where
    start: "commit_activity get repo_full since_iso w = commit_activity_from get url params acc w1" and
    get: "get w1 url params = (r, w')"
    by blast
  have "commit_activity_from get url params acc w1 = Some (Inr [], w')"
    using get assms(2) by (subst commit_activity_from.simps) simp
  with start show ?thesis by simp
qed

lemma commit_activity_error:
  assumes "page_response get repo_full since_iso k w = Some (r, w')"
    and "status_code r \<noteq> 409" and "raise_for_status (status_code r)"
  shows "commit_activity get repo_full since_iso w = Some (Inl (HTTPError (status_code r)), w')"
proof -
  from commit_activity_at_page [OF assms(1)] obtain url params acc w1 where
    start: "commit_activity get repo_full since_iso w = commit_activity_from get url params acc w1" and
    get: "get w1 url params = (r, w')"
    by blast
  have "commit_activity_from get url params acc w1 = Some (Inl (HTTPError (status_code r)), w')"
    using get assms(2,3) by (subst commit_activity_from.simps) simp
  with start show ?thesis by simp
qed

lemma main_loop_append:
  "main_loop lower tm get since_iso (pre @ rs) st w =
     (case main_loop lower tm get since_iso pre st w of
        None \<Rightarrow> None
      | Some (Inl e, w') \<Rightarrow> Some (Inl e, w')
      | Some (Inr st1, w1) \<Rightarrow> main_loop lower tm get since_iso rs st1 w1)"
  by (induction pre arbitrary: st w) (auto split: option.splits sum.splits prod.splits)

subsection \<open>The report\<close>

lemma repos_report: "repos (report cfg now_iso rs st) = stats_repos st"
  by (simp add: report_def)

lemma report_repos_total:
  "report cfg now_iso rs' st = (report cfg now_iso rs st)\<lparr>repos_total := int (length rs')\<rparr>"
  by (simp add: report_def)

lemma main_enumerated:
  "main lower cfg post get now_iso since_iso w = Some (Inr rep) \<Longrightarrow>
   \<exists>rs w1. list_org_repos post (ORG cfg) w = Some (Inr rs, w1)
          \<and> main_from lower cfg get now_iso since_iso rs w1 = Some (Inr rep)"
  by (auto simp: main_def split: option.splits sum.splits prod.splits)

lemma main_from_report:
  "main_from lower cfg get now_iso since_iso rs w = Some (Inr rep) \<Longrightarrow>
   \<exists>ps. fetched get since_iso rs w = Some ps
        \<and> rep = report cfg now_iso rs
                  (run_totals lower (track_map cfg) ps
                     \<lparr>contributor_totals = [], repo_activity = [], stats_repos = []\<rparr>)"
proof -
  assume run: "main_from lower cfg get now_iso since_iso rs w = Some (Inr rep)"
  then obtain st w' where
    loop: "main_loop lower (track_map cfg) get since_iso rs
             \<lparr>contributor_totals = [], repo_activity = [], stats_repos = []\<rparr> w = Some (Inr st, w')"
    and rep: "rep = report cfg now_iso rs st"
    by (auto simp: main_from_def split: option.splits sum.splits prod.splits)
  from main_loop_fetched [OF loop] rep show ?thesis by blast
qed

lemma main_trace:
  assumes "list_org_repos post (ORG cfg) w = Some (Inr rs, w1)"
    and "main lower cfg post get now_iso since_iso w = Some (Inr rep)"
  shows "\<exists>ps. fetched get since_iso rs w1 = Some ps
        \<and> rep = report cfg now_iso rs
                  (run_totals lower (track_map cfg) ps
                     \<lparr>contributor_totals = [], repo_activity = [], stats_repos = []\<rparr>)"
proof -
  from assms have "main_from lower cfg get now_iso since_iso rs w1 = Some (Inr rep)"
    by (simp add: main_def)
  then show ?thesis by (rule main_from_report)
qed

lemma main_from_skips:
  assumes "main_from lower cfg get now_iso since_iso rs w = Some (Inr rep)"
  shows "main_from lower cfg get now_iso since_iso (filter (\<lambda>r. \<not> (archived r \<or> disabled r)) rs) w =
           Some (Inr (rep\<lparr>repos_total := int (length (filter (\<lambda>r. \<not> (archived r \<or> disabled r)) rs))\<rparr>))"
proof -
  let ?rs' = "filter (\<lambda>r. \<not> (archived r \<or> disabled r)) rs"
  from assms obtain st w' where
    loop: "main_loop lower (track_map cfg) get since_iso rs
             \<lparr>contributor_totals = [], repo_activity = [], stats_repos = []\<rparr> w = Some (Inr st, w')"
    and rep: "rep = report cfg now_iso rs st"
    by (auto simp: main_from_def split: option.splits sum.splits prod.splits)
  from loop have "main_loop lower (track_map cfg) get since_iso ?rs'
             \<lparr>contributor_totals = [], repo_activity = [], stats_repos = []\<rparr> w = Some (Inr st, w')"
    by (simp only: main_loop_skips [symmetric])
  then have "main_from lower cfg get now_iso since_iso ?rs' w = Some (Inr (report cfg now_iso ?rs' st))"
    by (simp add: main_from_def)
  then show ?thesis
    by (simp only: rep report_repos_total [of cfg now_iso ?rs' st rs])
qed

subsection \<open>The track file\<close>

lemma fold_update_lookup:
  "fold (\<lambda>(r, t) tm. tm(lower r \<mapsto> t)) es tm0 k =
     (if filter (\<lambda>(r, t). lower r = k) es = [] then tm0 k
      else Some (snd (last (filter (\<lambda>(r, t). lower r = k) es))))"
proof (induction es rule: rev_induct)
  case Nil
  then show ?case by simp
next
  case (snoc e es)
  obtain r t where e: "e = (r, t)" by (cases e)
  show ?case
  proof (cases "lower r = k")
    case True
    then show ?thesis by (simp add: e)
  next
    case False
    then show ?thesis using snoc by (simp add: e)
  qed
qed

lemma load_track_map_entries:
  "load_track_map lower raw = fold (\<lambda>(r, t) tm. tm(lower r \<mapsto> t)) (track_entries raw) Map.empty"
proof -
  have inner: "fold (\<lambda>(r, t) tm. tm(lower r \<mapsto> t)) (map (\<lambda>r. (r, track)) rs) tm
               = fold (\<lambda>r tm'. tm'(lower r \<mapsto> track)) rs tm"
    for track :: string and rs tm
    by (induction rs arbitrary: tm) auto
  have outer: "fold (\<lambda>(r, t) tm. tm(lower r \<mapsto> t))
                 (concat (map (\<lambda>(track, repos). map (\<lambda>r. (r, track))
                    (case repos of None \<Rightarrow> [] | Some rs \<Rightarrow> rs)) kvs)) tm
               = fold (\<lambda>(track, repos) tm.
                    fold (\<lambda>r tm'. tm'(lower r \<mapsto> track)) (case repos of None \<Rightarrow> [] | Some rs \<Rightarrow> rs) tm)
                  kvs tm"
    for kvs :: "(string \<times> string list option) list" and tm
    by (induction kvs arbitrary: tm) (auto simp: inner)
  show ?thesis
    by (simp add: load_track_map_def track_entries_def outer)
qed

lemma infer_track_no_topic:
  "\<forall>t\<in>set ts. \<not> startswith t ''track-'' \<Longrightarrow> infer_track lower tm repo_name ts = tm (lower repo_name)"
  by (induction ts) auto

subsection \<open>The example runs\<close>

lemma ex_enumerated: "list_org_repos ex_post (ORG ex_cfg) () = Some (Inr ex_repos, ())"
  by code_simp

lemma ex_fetched:
  "fetched ex_get ex_since ex_repos () =
     Some [(ex_repos ! 0, ex_commits_a), (ex_repos ! 2, []), (ex_repos ! 3, [])]"
  by code_simp

lemma ex_run: "main ascii_lower ex_cfg ex_post ex_get ex_now ex_since () = Some (Inr ex_report)"
  by code_simp

lemma solo_run: "main ascii_lower ex_cfg (many_post [''solo'']) many_get ex_now ex_since () = Some (Inr solo_report)"
  by code_simp

lemma many_run: "main ascii_lower ex_cfg (many_post many_repos) many_get ex_now ex_since () = Some (Inr many_report)"
  by code_simp

section \<open>The claims\<close>

text \<open>
  Claim C1, as amended. The contributor leaderboard keeps the first 15 entries only, so
  its total is at most the sum of the per-repository commit counts, and the two are equal
  whenever the summaries name at most 15 distinct contributors. With 16 contributors of
  one commit each the leaderboard total is 15 and the sum of the commit counts is 16.
\<close>

theorem contributor_leaderboard_total:
  assumes "main lower cfg post get now_iso since_iso w = Some (Inr rep)"
  shows "sum_list (map commits (top_contributors_30d rep)) \<le> sum_list (map commits_count (repos rep))
       \<and> (card (\<Union>s\<in>set (repos rep). login ` set (contributors s)) \<le> 15 \<longrightarrow>
            sum_list (map commits (top_contributors_30d rep)) = sum_list (map commits_count (repos rep)))"
proof -
  from main_enumerated [OF assms] obtain rs w1 where
    "main_from lower cfg get now_iso since_iso rs w1 = Some (Inr rep)" by blast
  from main_from_report [OF this] obtain ps where
    rep: "rep = report cfg now_iso rs (run_totals lower (track_map cfg) ps
            \<lparr>contributor_totals = [], repo_activity = [], stats_repos = []\<rparr>)"
    by blast
  define tot where "tot = contributor_totals (run_totals lower (track_map cfg) ps
            \<lparr>contributor_totals = [], repo_activity = [], stats_repos = []\<rparr>)"
  define ranked where "ranked = sorted_reverse commits (map (\<lambda>(k, v). \<lparr>login = k, commits = v\<rparr>) tot)"
  have top: "top_contributors_30d rep = take 15 ranked"
    by (simp add: rep report_def ranked_def tot_def)
  have repos: "repos rep = map (\<lambda>(r, cs). repo_summary lower (track_map cfg) r cs) ps"
    by (simp add: rep repos_report stats_repos_run_totals)
  have "map commits_count (repos rep) = map (\<lambda>(r, cs). int (length cs)) ps"
    by (auto simp: repos commits_count_repo_summary)
  then have total: "sum_list (map commits_count (repos rep)) = sum_list (map snd tot)"
    by (simp add: tot_def sum_contributor_totals)
  have sum_ranked: "sum_list (map commits ranked) = sum_list (map snd tot)"
    by (simp only: ranked_def sum_sorted_reverse commits_entries)
  have "\<forall>x\<in>set (map commits ranked). 0 \<le> x"
    using nonneg_contributor_totals [of lower "track_map cfg" ps]
    by (auto simp: ranked_def set_sorted_reverse tot_def)
  then have "sum_list (take 15 (map commits ranked)) \<le> sum_list (map commits ranked)"
    by (rule sum_list_take_le)
  then have le: "sum_list (map commits (top_contributors_30d rep)) \<le> sum_list (map commits_count (repos rep))"
    by (simp add: top take_map total sum_ranked)
  have keys: "map fst tot = encounter_order (concat (map (\<lambda>(r, cs). map author cs) ps))"
    by (simp add: tot_def keys_contributor_totals)
  have "(\<Union>s\<in>set (repos rep). login ` set (contributors s))
        = (\<Union>p\<in>set ps. login ` set (contributors (repo_summary lower (track_map cfg) (fst p) (snd p))))"
    by (simp add: repos split_def)
  also have "\<dots> = (\<Union>p\<in>set ps. set (map author (snd p)))"
    by (simp only: logins_repo_summary)
  also have "\<dots> = set (map fst tot)"
    by (simp add: keys set_encounter_order split_def)
  finally have "(\<Union>s\<in>set (repos rep). login ` set (contributors s)) = set (map fst tot)" .
  moreover have "distinct (map fst tot)"
    by (simp add: keys distinct_encounter_order)
  then have "card (set (map fst tot)) = length (map fst tot)"
    by (rule distinct_card)
  ultimately have "card (\<Union>s\<in>set (repos rep). login ` set (contributors s)) = length ranked"
    by (simp add: ranked_def length_sorted_reverse)
  then have "card (\<Union>s\<in>set (repos rep). login ` set (contributors s)) \<le> 15 \<Longrightarrow>
             top_contributors_30d rep = ranked"
    by (simp add: top)
  with le total sum_ranked show ?thesis by auto
qed

theorem contributor_leaderboard_total_witness:
  "main ascii_lower ex_cfg ex_post ex_get ex_now ex_since () = Some (Inr ex_report)
   \<and> card (\<Union>s\<in>set (repos ex_report). login ` set (contributors s)) \<le> 15
   \<and> sum_list (map commits (top_contributors_30d ex_report)) = 4
   \<and> sum_list (map commits_count (repos ex_report)) = 4"
proof -
  have card: "card (\<Union>s\<in>set (repos ex_report). login ` set (contributors s)) \<le> 15"
    by (simp add: ex_report_def card_insert_if)
  have "sum_list (map commits_count (repos ex_report)) = 4"
    by (simp add: ex_report_def)
  with contributor_leaderboard_total [OF ex_run] card ex_run show ?thesis by simp
qed

theorem contributor_leaderboard_total_counterexample:
  "main ascii_lower ex_cfg (many_post [''solo'']) many_get ex_now ex_since () = Some (Inr solo_report)
   \<and> sum_list (map commits (top_contributors_30d solo_report)) = 15
   \<and> sum_list (map commits_count (repos solo_report)) = 16"
proof -
  have "sum_list (map commits (top_contributors_30d solo_report)) = 15"
    by code_simp
  moreover have "sum_list (map commits_count (repos solo_report)) = 16"
    by code_simp
  ultimately show ?thesis using solo_run by simp
qed

text \<open>
  Claim C2. The track of a topic with the reserved prefix should be the topic without
  that prefix. \<open>infer_track\<close> calls \<^verbatim>\<open>t.replace("track-", "")\<close>, which also removes every
  later occurrence of \<open>track-\<close>: for the topic \<open>track-api-track-v2\<close> it returns \<open>api-v2\<close>,
  while the topic without its prefix is \<open>api-track-v2\<close>.
\<close>

theorem infer_track_removes_every_occurrence:
  "infer_track lower tm ''repo-x'' [''track-api-track-v2''] = Some ''api-v2''
   \<and> drop (length ''track-'') ''track-api-track-v2'' = ''api-track-v2''"
  by (simp add: startswith_def replace.simps)

text \<open>
  Claim C3. When no topic starts with \<open>track-\<close>, \<open>infer_track\<close> looks the repository name
  up in the mapping loaded from the track file, both the name and the file's entries
  passed through \<^verbatim>\<open>str.lower\<close>: it returns the track of an entry whose lowered name is the
  lowered repository name (the last such entry), whatever the case of either, and
  \<open>None\<close>, the unassigned value, when no entry matches. The lowering function is a
  parameter, so the statement holds for \<^verbatim>\<open>str.lower\<close> on the whole of Unicode.
\<close>

theorem infer_track_falls_back_to_mapping:
  assumes "\<forall>t\<in>set ts. \<not> startswith t ''track-''"
  shows "infer_track lower (load_track_map lower raw) repo_name ts = mapped_track lower raw repo_name
       \<and> ((\<forall>e\<in>set (track_entries raw). lower (fst e) \<noteq> lower repo_name)
            \<longrightarrow> infer_track lower (load_track_map lower raw) repo_name ts = None)
       \<and> ((\<exists>e\<in>set (track_entries raw). lower (fst e) = lower repo_name)
            \<longrightarrow> (\<exists>e\<in>set (track_entries raw). lower (fst e) = lower repo_name
                   \<and> infer_track lower (load_track_map lower raw) repo_name ts = Some (snd e)))"
proof -
  let ?fs = "filter (\<lambda>(r, t). lower r = lower repo_name) (track_entries raw)"
  have eq: "infer_track lower (load_track_map lower raw) repo_name ts = mapped_track lower raw repo_name"
    by (simp add: infer_track_no_topic [OF assms] load_track_map_entries fold_update_lookup
        mapped_track_def Let_def)
  have none: "mapped_track lower raw repo_name = None"
    if "\<forall>e\<in>set (track_entries raw). lower (fst e) \<noteq> lower repo_name"
  proof -
    from that have "?fs = []" by (auto simp: filter_empty_conv)
    then show ?thesis by (simp add: mapped_track_def Let_def)
  qed
  have some: "\<exists>e\<in>set (track_entries raw). lower (fst e) = lower repo_name
                \<and> mapped_track lower raw repo_name = Some (snd e)"
    if "\<exists>e\<in>set (track_entries raw). lower (fst e) = lower repo_name"
  proof -
    from that have ne: "?fs \<noteq> []" by (auto simp: filter_empty_conv)
    then have "last ?fs \<in> set ?fs" by (rule last_in_set)
    then have "last ?fs \<in> set (track_entries raw)" "lower (fst (last ?fs)) = lower repo_name"
      by auto
    moreover from ne have "mapped_track lower raw repo_name = Some (snd (last ?fs))"
      by (simp add: mapped_track_def Let_def)
    ultimately show ?thesis by blast
  qed
  from eq none some show ?thesis by simp
qed

theorem infer_track_falls_back_to_mapping_witness:
  "infer_track ascii_lower (load_track_map ascii_lower (Some [(''tooling'', Some [''Repo-Y''])])) ''repo-y'' [''defi''] = Some ''tooling''
   \<and> infer_track ascii_lower (load_track_map ascii_lower (Some [(''tooling'', Some [''Repo-Y''])])) ''repo-z'' [''defi''] = None"
proof -
  have no_topic: "\<forall>t\<in>set [''defi'']. \<not> startswith t ''track-''"
    by (simp add: startswith_def)
  have "mapped_track ascii_lower (Some [(''tooling'', Some [''Repo-Y''])]) ''repo-y'' = Some ''tooling''"
    by code_simp
  moreover have "mapped_track ascii_lower (Some [(''tooling'', Some [''Repo-Y''])]) ''repo-z'' = None"
    by code_simp
  ultimately show ?thesis
    using
      infer_track_falls_back_to_mapping [OF no_topic, where lower = ascii_lower
        and raw = "Some [(''tooling'', Some [''Repo-Y''])]" and repo_name = "''repo-y''"]
      infer_track_falls_back_to_mapping [OF no_topic, where lower = ascii_lower
        and raw = "Some [(''tooling'', Some [''Repo-Y''])]" and repo_name = "''repo-z''"]
    by simp
qed

text \<open>
  Claim C4, as amended. The repositories of the report are the summaries of the
  repositories whose commits the run fetched, in order. Where the fetched list is empty,
  the summary's commit count is 0 and its \<open>last_commit_at\<close> is the last-pushed timestamp
  when the repository has a non-empty one, and \<open>N/A\<close> otherwise
  (\<^verbatim>\<open>last_commit_iso or r["pushedAt"] or "N/A"\<close>). In the example run \<open>repo-y\<close> has no
  commits and no last-pushed timestamp, and its \<open>last_commit_at\<close> is \<open>N/A\<close>.
\<close>

theorem zero_commits_summary:
  assumes "list_org_repos post (ORG cfg) w = Some (Inr rs, w1)"
    and "main lower cfg post get now_iso since_iso w = Some (Inr rep)"
  shows "\<exists>ps. fetched get since_iso rs w1 = Some ps
        \<and> repos rep = map (\<lambda>(r, cs). repo_summary lower (track_map cfg) r cs) ps
        \<and> (\<forall>(r, cs)\<in>set ps. cs = [] \<longrightarrow>
              commits_count (repo_summary lower (track_map cfg) r cs) = 0
              \<and> last_commit_at (repo_summary lower (track_map cfg) r cs) =
                  (case pushedAt r of None \<Rightarrow> ''N/A'' | Some p \<Rightarrow> if p = [] then ''N/A'' else p))"
proof -
  from main_trace [OF assms] obtain ps where
    ps: "fetched get since_iso rs w1 = Some ps" and
    "repos rep = map (\<lambda>(r, cs). repo_summary lower (track_map cfg) r cs) ps"
    by (auto simp: repos_report stats_repos_run_totals)
  moreover have "\<forall>(r, cs)\<in>set ps. cs = [] \<longrightarrow>
              commits_count (repo_summary lower (track_map cfg) r cs) = 0
              \<and> last_commit_at (repo_summary lower (track_map cfg) r cs) =
                  (case pushedAt r of None \<Rightarrow> ''N/A'' | Some p \<Rightarrow> if p = [] then ''N/A'' else p)"
    by (auto simp: commits_count_repo_summary last_commit_at_no_commits)
  ultimately show ?thesis by blast
qed

theorem zero_commits_summary_witness:
  "list_org_repos ex_post (ORG ex_cfg) () = Some (Inr ex_repos, ())
   \<and> main ascii_lower ex_cfg ex_post ex_get ex_now ex_since () = Some (Inr ex_report)
   \<and> fetched ex_get ex_since ex_repos () =
       Some [(ex_repos ! 0, ex_commits_a), (ex_repos ! 2, []), (ex_repos ! 3, [])]
   \<and> repos ex_report ! 1 = repo_summary ascii_lower (track_map ex_cfg) (ex_repos ! 2) []
   \<and> pushedAt (ex_repos ! 2) = Some ''2025-08-01T12:00:00Z''
   \<and> commits_count (repos ex_report ! 1) = 0
   \<and> last_commit_at (repos ex_report ! 1) = ''2025-08-01T12:00:00Z''"
proof -
  have "pushedAt (ex_repos ! 2) = Some ''2025-08-01T12:00:00Z''"
    by (simp add: ex_repos_def)
  with zero_commits_summary [OF ex_enumerated ex_run] ex_fetched ex_enumerated ex_run
  show ?thesis by simp
qed

theorem zero_commits_summary_counterexample:
  "list_org_repos ex_post (ORG ex_cfg) () = Some (Inr ex_repos, ())
   \<and> main ascii_lower ex_cfg ex_post ex_get ex_now ex_since () = Some (Inr ex_report)
   \<and> fetched ex_get ex_since ex_repos () =
       Some [(ex_repos ! 0, ex_commits_a), (ex_repos ! 2, []), (ex_repos ! 3, [])]
   \<and> info_full (repos ex_report ! 2) = full (ex_repos ! 3)
   \<and> commits_count (repos ex_report ! 2) = 0
   \<and> pushedAt (ex_repos ! 3) = None
   \<and> last_commit_at (repos ex_report ! 2) = ''N/A''"
  using ex_enumerated ex_run ex_fetched by (simp add: ex_report_def ex_repos_def)

text \<open>
  Claim C5. Whatever the provider returns, the repository leaderboard of a report has at
  most 10 entries and the contributor leaderboard at most 15. The witness is a run over
  11 repositories and 16 contributors.
\<close>

theorem leaderboards_within_caps:
  assumes "main lower cfg post get now_iso since_iso w = Some (Inr rep)"
  shows "length (top_repos_30d rep) \<le> 10 \<and> length (top_contributors_30d rep) \<le> 15"
proof -
  from main_enumerated [OF assms] obtain rs w1 where
    "main_from lower cfg get now_iso since_iso rs w1 = Some (Inr rep)" by blast
  from main_from_report [OF this] obtain st where "rep = report cfg now_iso rs st" by blast
  then show ?thesis by (simp add: report_def)
qed

theorem leaderboards_within_caps_witness:
  "main ascii_lower ex_cfg (many_post many_repos) many_get ex_now ex_since () = Some (Inr many_report)
   \<and> length (top_repos_30d many_report) \<le> 10 \<and> length (top_contributors_30d many_report) \<le> 15"
  using leaderboards_within_caps [OF many_run] many_run by simp

text \<open>
  Claim C6. Both leaderboards are in descending order of commit count, and entries with
  equal counts keep their encounter order: the repository entries with a given count are
  an initial segment of the summaries with that count, in the order of the report's
  repository list, and the contributors with a given count appear in the order in which
  the run first met them in the fetched commits.
\<close>

theorem leaderboards_sorted_stable:
  assumes "list_org_repos post (ORG cfg) w = Some (Inr rs, w1)"
    and "main lower cfg post get now_iso since_iso w = Some (Inr rep)"
  shows "sorted_wrt (\<lambda>a b. rank_commits b \<le> rank_commits a) (top_repos_30d rep)
       \<and> sorted_wrt (\<lambda>a b. commits b \<le> commits a) (top_contributors_30d rep)
       \<and> (\<forall>k. prefix (filter (\<lambda>e. rank_commits e = k) (top_repos_30d rep))
                 (filter (\<lambda>e. rank_commits e = k)
                    (map (\<lambda>s. \<lparr>rank_repo = info_name s, rank_commits = commits_count s\<rparr>) (repos rep))))
       \<and> (\<exists>ps. fetched get since_iso rs w1 = Some ps
             \<and> (\<forall>k. subseq (map login (filter (\<lambda>e. commits e = k) (top_contributors_30d rep)))
                       (encounter_order (concat (map (\<lambda>(r, cs). map author cs) ps)))))"
proof -
  from main_trace [OF assms] obtain ps where
    ps: "fetched get since_iso rs w1 = Some ps" and
    rep: "rep = report cfg now_iso rs (run_totals lower (track_map cfg) ps
            \<lparr>contributor_totals = [], repo_activity = [], stats_repos = []\<rparr>)"
    by blast
  define tot where "tot = contributor_totals (run_totals lower (track_map cfg) ps
            \<lparr>contributor_totals = [], repo_activity = [], stats_repos = []\<rparr>)"
  define entries where "entries = map (\<lambda>(k, v). \<lparr>login = k, commits = v\<rparr>) tot"
  define ranks where
    "ranks = map (\<lambda>s. \<lparr>rank_repo = info_name s, rank_commits = commits_count s\<rparr>) (repos rep)"
  have top_c: "top_contributors_30d rep = take 15 (sorted_reverse commits entries)"
    by (simp add: rep report_def entries_def tot_def)
  have "map (\<lambda>(n, c). \<lparr>rank_repo = n, rank_commits = c\<rparr>)
          (repo_activity (run_totals lower (track_map cfg) ps
             \<lparr>contributor_totals = [], repo_activity = [], stats_repos = []\<rparr>)) = ranks"
    unfolding ranks_def rep repos_report
    by (simp only: repo_activity_run_totals stats_repos_run_totals entries_of_activity
        totals.simps append_Nil)
  then have top_r: "top_repos_30d rep = take 10 (sorted_reverse rank_commits ranks)"
    by (simp add: rep report_def)
  have s1: "sorted_wrt (\<lambda>a b. rank_commits b \<le> rank_commits a) (top_repos_30d rep)"
    unfolding top_r by (rule sorted_take_sorted_reverse)
  have s2: "sorted_wrt (\<lambda>a b. commits b \<le> commits a) (top_contributors_30d rep)"
    unfolding top_c by (rule sorted_take_sorted_reverse)
  have st1: "prefix (filter (\<lambda>e. rank_commits e = k) (top_repos_30d rep))
                 (filter (\<lambda>e. rank_commits e = k) ranks)" for k
    unfolding top_r by (rule prefix_filter_take_sorted_reverse)
  have keys: "map login entries = encounter_order (concat (map (\<lambda>(r, cs). map author cs) ps))"
    by (simp only: entries_def logins_entries tot_def keys_contributor_totals)
  have st2: "subseq (map login (filter (\<lambda>e. commits e = k) (top_contributors_30d rep)))
                 (encounter_order (concat (map (\<lambda>(r, cs). map author cs) ps)))" for k
  proof -
    have "prefix (filter (\<lambda>e. commits e = k) (top_contributors_30d rep))
                 (filter (\<lambda>e. commits e = k) entries)"
      unfolding top_c by (rule prefix_filter_take_sorted_reverse)
    then have "subseq (filter (\<lambda>e. commits e = k) (top_contributors_30d rep))
                 (filter (\<lambda>e. commits e = k) entries)"
      by (rule prefix_imp_subseq)
    then have "subseq (filter (\<lambda>e. commits e = k) (top_contributors_30d rep)) entries"
      by (rule subseq_order.trans) simp
    then have "subseq (map login (filter (\<lambda>e. commits e = k) (top_contributors_30d rep)))
                 (map login entries)"
      by (rule subseq_map)
    then show ?thesis by (simp only: keys)
  qed
  from s1 s2 st1 st2 ps show ?thesis
    unfolding ranks_def by blast
qed

theorem leaderboards_sorted_stable_witness:
  "list_org_repos ex_post (ORG ex_cfg) () = Some (Inr ex_repos, ())
   \<and> main ascii_lower ex_cfg ex_post ex_get ex_now ex_since () = Some (Inr ex_report)
   \<and> fetched ex_get ex_since ex_repos () =
       Some [(ex_repos ! 0, ex_commits_a), (ex_repos ! 2, []), (ex_repos ! 3, [])]
   \<and> sorted_wrt (\<lambda>a b. commits b \<le> commits a) (top_contributors_30d ex_report)
   \<and> sorted_wrt (\<lambda>a b. rank_commits b \<le> rank_commits a) (top_repos_30d ex_report)
   \<and> map rank_repo (filter (\<lambda>e. rank_commits e = 0) (top_repos_30d ex_report)) = [''repo-c'', ''repo-y'']
   \<and> map login (filter (\<lambda>e. commits e = 1) (top_contributors_30d ex_report)) = [''bob'', ''Carol'']
   \<and> encounter_order (map author ex_commits_a) = [''bob'', ''alice'', ''Carol'']"
proof -
  have "map rank_repo (filter (\<lambda>e. rank_commits e = 0) (top_repos_30d ex_report)) = [''repo-c'', ''repo-y'']"
    by (simp add: ex_report_def)
  moreover have "map login (filter (\<lambda>e. commits e = 1) (top_contributors_30d ex_report)) = [''bob'', ''Carol'']"
    by (simp add: ex_report_def)
  moreover have "encounter_order (map author ex_commits_a) = [''bob'', ''alice'', ''Carol'']"
    by (simp add: ex_commits_a_def ex_commit_def author_def)
  ultimately show ?thesis
    using leaderboards_sorted_stable [OF ex_enumerated ex_run] ex_enumerated ex_run ex_fetched
    by simp
qed

text \<open>
  Claim C7, as amended. Whatever page of the pagination the provider answers with the
  status 409, \<open>commit_activity\<close> returns the empty list, and the run goes on: \<open>main\<close> is
  the rest of the run from the state in which the repository has no commits. Whatever
  page it answers with another status from 400 to 599, \<open>commit_activity\<close> raises
  \<open>HTTPError\<close>, and \<open>main\<close> ends with that error. A status outside 200 to 299 for which
  \<^verbatim>\<open>raise_for_status\<close> does not raise, such as 300, is not an error for the run: the body
  is read as a page of commits.
\<close>

theorem commit_activity_statuses:
  "(page_response get repo_full since_iso k w = Some (r, w') \<and> status_code r = 409 \<longrightarrow>
      commit_activity get repo_full since_iso w = Some (Inr [], w'))
   \<and> (page_response get repo_full since_iso k w = Some (r, w') \<and> status_code r \<noteq> 409
        \<and> raise_for_status (status_code r) \<longrightarrow>
      commit_activity get repo_full since_iso w = Some (Inl (HTTPError (status_code r)), w'))
   \<and> (list_org_repos post (ORG cfg) w0 = Some (Inr (pre @ rp # rest), w1)
        \<and> main_loop lower (track_map cfg) get since_iso pre
             \<lparr>contributor_totals = [], repo_activity = [], stats_repos = []\<rparr> w1 = Some (Inr st, w)
        \<and> \<not> (archived rp \<or> disabled rp)
        \<and> page_response get (full rp) since_iso k w = Some (r, w') \<and> status_code r = 409 \<longrightarrow>
      main lower cfg post get now_iso since_iso w0 =
        (case main_loop lower (track_map cfg) get since_iso rest
                (process_repo lower (track_map cfg) rp [] st) w' of
           None \<Rightarrow> None
         | Some (Inl e, w'') \<Rightarrow> Some (Inl e)
         | Some (Inr st', w'') \<Rightarrow> Some (Inr (report cfg now_iso (pre @ rp # rest) st'))))
   \<and> (list_org_repos post (ORG cfg) w0 = Some (Inr (pre @ rp # rest), w1)
        \<and> main_loop lower (track_map cfg) get since_iso pre
             \<lparr>contributor_totals = [], repo_activity = [], stats_repos = []\<rparr> w1 = Some (Inr st, w)
        \<and> \<not> (archived rp \<or> disabled rp)
        \<and> page_response get (full rp) since_iso k w = Some (r, w') \<and> status_code r \<noteq> 409
        \<and> raise_for_status (status_code r) \<longrightarrow>
      main lower cfg post get now_iso since_iso w0 = Some (Inl (HTTPError (status_code r))))"
proof -
  have empty: "commit_activity get full_name since_iso w = Some (Inr [], w')"
    if "page_response get full_name since_iso k w = Some (r, w')" "status_code r = 409"
    for full_name
    using that by (rule commit_activity_conflict)
  have fatal: "commit_activity get full_name since_iso w = Some (Inl (HTTPError (status_code r)), w')"
    if "page_response get full_name since_iso k w = Some (r, w')" "status_code r \<noteq> 409"
      "raise_for_status (status_code r)"
    for full_name
    using that by (rule commit_activity_error)
  have continues: "main lower cfg post get now_iso since_iso w0 =
        (case main_loop lower (track_map cfg) get since_iso rest
                (process_repo lower (track_map cfg) rp [] st) w' of
           None \<Rightarrow> None
         | Some (Inl e, w'') \<Rightarrow> Some (Inl e)
         | Some (Inr st', w'') \<Rightarrow> Some (Inr (report cfg now_iso (pre @ rp # rest) st')))"
    if "list_org_repos post (ORG cfg) w0 = Some (Inr (pre @ rp # rest), w1)"
      "main_loop lower (track_map cfg) get since_iso pre
         \<lparr>contributor_totals = [], repo_activity = [], stats_repos = []\<rparr> w1 = Some (Inr st, w)"
      "\<not> (archived rp \<or> disabled rp)"
      "page_response get (full rp) since_iso k w = Some (r, w')" "status_code r = 409"
    using that empty [OF that(4,5)]
    by (simp add: main_def main_from_def main_loop_append)
  have ends: "main lower cfg post get now_iso since_iso w0 = Some (Inl (HTTPError (status_code r)))"
    if "list_org_repos post (ORG cfg) w0 = Some (Inr (pre @ rp # rest), w1)"
      "main_loop lower (track_map cfg) get since_iso pre
         \<lparr>contributor_totals = [], repo_activity = [], stats_repos = []\<rparr> w1 = Some (Inr st, w)"
      "\<not> (archived rp \<or> disabled rp)"
      "page_response get (full rp) since_iso k w = Some (r, w')" "status_code r \<noteq> 409"
      "raise_for_status (status_code r)"
    using that fatal [OF that(4,5,6)]
    by (simp add: main_def main_from_def main_loop_append)
  from empty fatal continues ends show ?thesis by blast
qed

theorem commit_activity_statuses_witness:
  "page_response (late_get 409) ''team1/repo-a'' ex_since 1 () =
      Some (\<lparr>status_code = 409, json = None, links_next = None\<rparr>, ())
   \<and> commit_activity (late_get 409) ''team1/repo-a'' ex_since () = Some (Inr [], ())
   \<and> page_response (late_get 500) ''team1/repo-a'' ex_since 1 () =
      Some (\<lparr>status_code = 500, json = None, links_next = None\<rparr>, ())
   \<and> commit_activity (late_get 500) ''team1/repo-a'' ex_since () = Some (Inl (HTTPError 500), ())
   \<and> page_response ex_get (full (ex_repos ! 2)) ex_since 0 () =
      Some (\<lparr>status_code = 409, json = None, links_next = None\<rparr>, ())
   \<and> main ascii_lower ex_cfg ex_post ex_get ex_now ex_since () = Some (Inr ex_report)
   \<and> info_full (repos ex_report ! 1) = full (ex_repos ! 2)
   \<and> main ascii_lower ex_cfg ex_post (late_get 500) ex_now ex_since () = Some (Inl (HTTPError 500))"
proof -
  let ?st0 = "\<lparr>contributor_totals = [], repo_activity = [], stats_repos = []\<rparr>"
  let ?conflict = "\<lparr>status_code = 409, json = None, links_next = None\<rparr>"
  let ?failure = "\<lparr>status_code = 500, json = None, links_next = None\<rparr>"
  have p1: "page_response (late_get 409) ''team1/repo-a'' ex_since 1 () = Some (?conflict, ())"
    by code_simp
  have p2: "page_response (late_get 500) ''team1/repo-a'' ex_since 1 () = Some (?failure, ())"
    by code_simp
  have p3: "page_response ex_get (full (ex_repos ! 2)) ex_since 0 () = Some (?conflict, ())"
    by code_simp
  have p4: "page_response (late_get 500) (full (ex_repos ! 0)) ex_since 1 () = Some (?failure, ())"
    by code_simp
  have e3: "list_org_repos ex_post (ORG ex_cfg) () =
              Some (Inr ([ex_repos ! 0, ex_repos ! 1] @ ex_repos ! 2 # [ex_repos ! 3]), ())"
    by code_simp
  have e4: "list_org_repos ex_post (ORG ex_cfg) () =
              Some (Inr ([] @ ex_repos ! 0 # [ex_repos ! 1, ex_repos ! 2, ex_repos ! 3]), ())"
    by code_simp
  have l3: "main_loop ascii_lower (track_map ex_cfg) ex_get ex_since [ex_repos ! 0, ex_repos ! 1] ?st0 () =
              Some (Inr (process_repo ascii_lower (track_map ex_cfg) (ex_repos ! 0) ex_commits_a ?st0), ())"
    by code_simp
  have l4: "main_loop ascii_lower (track_map ex_cfg) (late_get 500) ex_since [] ?st0 () = Some (Inr ?st0, ())"
    by simp
  have a3: "\<not> (archived (ex_repos ! 2) \<or> disabled (ex_repos ! 2))"
    and a4: "\<not> (archived (ex_repos ! 0) \<or> disabled (ex_repos ! 0))"
    by (simp_all add: ex_repos_def)
  have rest: "(case main_loop ascii_lower (track_map ex_cfg) ex_get ex_since [ex_repos ! 3]
                (process_repo ascii_lower (track_map ex_cfg) (ex_repos ! 2) []
                   (process_repo ascii_lower (track_map ex_cfg) (ex_repos ! 0) ex_commits_a ?st0)) () of
           None \<Rightarrow> None
         | Some (Inl e, w'') \<Rightarrow> Some (Inl e)
         | Some (Inr st', w'') \<Rightarrow>
             Some (Inr (report ex_cfg ex_now ([ex_repos ! 0, ex_repos ! 1] @ ex_repos ! 2 # [ex_repos ! 3]) st')))
        = Some (Inr ex_report)"
    by code_simp
  have full: "info_full (repos ex_report ! 1) = full (ex_repos ! 2)"
    by (simp add: ex_report_def ex_repos_def)
  have c1: "commit_activity (late_get 409) ''team1/repo-a'' ex_since () = Some (Inr [], ())"
    using commit_activity_statuses [where get = "late_get 409" and repo_full = "''team1/repo-a''"
        and since_iso = ex_since and k = 1 and w = "()" and r = ?conflict and w' = "()",
        THEN conjunct1] p1
    by simp
  have c2: "commit_activity (late_get 500) ''team1/repo-a'' ex_since () = Some (Inl (HTTPError 500), ())"
    using commit_activity_statuses [where get = "late_get 500" and repo_full = "''team1/repo-a''"
        and since_iso = ex_since and k = 1 and w = "()" and r = ?failure and w' = "()",
        THEN conjunct2, THEN conjunct1] p2
    by (simp add: raise_for_status_def)
  have c3: "main ascii_lower ex_cfg ex_post ex_get ex_now ex_since () = Some (Inr ex_report)"
    using commit_activity_statuses [where get = ex_get and since_iso = ex_since and k = 0
        and w = "()" and r = ?conflict and w' = "()" and post = ex_post and cfg = ex_cfg
        and ?w0.0 = "()" and pre = "[ex_repos ! 0, ex_repos ! 1]" and rp = "ex_repos ! 2"
        and rest = "[ex_repos ! 3]" and ?w1.0 = "()" and lower = ascii_lower
        and st = "process_repo ascii_lower (track_map ex_cfg) (ex_repos ! 0) ex_commits_a ?st0"
        and now_iso = ex_now,
        THEN conjunct2, THEN conjunct2, THEN conjunct1] e3 l3 a3 p3 rest
    by (simp del: main_loop.simps)
  have c4: "main ascii_lower ex_cfg ex_post (late_get 500) ex_now ex_since () = Some (Inl (HTTPError 500))"
    using commit_activity_statuses [where get = "late_get 500" and since_iso = ex_since and k = 1
        and w = "()" and r = ?failure and w' = "()" and post = ex_post and cfg = ex_cfg
        and ?w0.0 = "()" and pre = "[]" and rp = "ex_repos ! 0"
        and rest = "[ex_repos ! 1, ex_repos ! 2, ex_repos ! 3]" and ?w1.0 = "()"
        and lower = ascii_lower and st = ?st0 and now_iso = ex_now,
        THEN conjunct2, THEN conjunct2, THEN conjunct2] e4 l4 a4 p4
    by (simp add: raise_for_status_def del: main_loop.simps)
  from p1 c1 p2 c2 p3 c3 full c4 show ?thesis by (simp del: main_loop.simps)
qed

theorem commit_activity_statuses_counterexample:
  "status_code (fst (multiple_choices_get () ''https://api.github.com/repos/team1/repo-a/commits''
      (Some [(''since'', ex_since), (''per_page'', ''100'')]))) = 300
   \<and> commit_activity multiple_choices_get ''team1/repo-a'' ex_since () =
       Some (Inr [ex_commit (Some ''alice'') None ''2025-08-25T10:00:00Z''], ())
   \<and> map_option isl (main ascii_lower ex_cfg ex_post multiple_choices_get ex_now ex_since ()) = Some False"
proof -
  have "status_code (fst (multiple_choices_get () ''https://api.github.com/repos/team1/repo-a/commits''
      (Some [(''since'', ex_since), (''per_page'', ''100'')]))) = 300"
    by (simp add: multiple_choices_get_def)
  moreover have "commit_activity multiple_choices_get ''team1/repo-a'' ex_since () =
       Some (Inr [ex_commit (Some ''alice'') None ''2025-08-25T10:00:00Z''], ())"
    by code_simp
  moreover have "map_option isl (main ascii_lower ex_cfg ex_post multiple_choices_get ex_now ex_since ()) = Some False"
    by code_simp
  ultimately show ?thesis by simp
qed

text \<open>
  Claim C8. The report's repository list holds exactly the enumerated repositories that
  are neither archived nor disabled, in order; and the whole report, both leaderboards
  included, is the one that the run produces when the archived and disabled repositories
  are not enumerated at all, up to \<open>repos_total\<close>.
\<close>

theorem archived_disabled_left_out:
  assumes "list_org_repos post (ORG cfg) w = Some (Inr rs, w1)"
    and "main lower cfg post get now_iso since_iso w = Some (Inr rep)"
  shows "map (\<lambda>s. (info_name s, info_full s)) (repos rep) =
           map (\<lambda>r. (name r, full r)) (filter (\<lambda>r. \<not> (archived r \<or> disabled r)) rs)
       \<and> main_from lower cfg get now_iso since_iso (filter (\<lambda>r. \<not> (archived r \<or> disabled r)) rs) w1 =
           Some (Inr (rep\<lparr>repos_total := int (length (filter (\<lambda>r. \<not> (archived r \<or> disabled r)) rs))\<rparr>))"
proof -
  from assms have from_rs: "main_from lower cfg get now_iso since_iso rs w1 = Some (Inr rep)"
    by (simp add: main_def)
  from main_trace [OF assms] obtain ps where
    ps: "fetched get since_iso rs w1 = Some ps" and
    repos: "repos rep = map (\<lambda>(r, cs). repo_summary lower (track_map cfg) r cs) ps"
    by (auto simp: repos_report stats_repos_run_totals)
  have "map (\<lambda>s. (info_name s, info_full s)) (repos rep) = map (\<lambda>r. (name r, full r)) (map fst ps)"
    by (simp add: repos split_def summary_ids)
  then have "map (\<lambda>s. (info_name s, info_full s)) (repos rep) =
           map (\<lambda>r. (name r, full r)) (filter (\<lambda>r. \<not> (archived r \<or> disabled r)) rs)"
    by (simp only: fetched_repos [OF ps])
  with main_from_skips [OF from_rs] show ?thesis by simp
qed

theorem archived_disabled_left_out_witness:
  "list_org_repos ex_post (ORG ex_cfg) () = Some (Inr ex_repos, ())
   \<and> main ascii_lower ex_cfg ex_post ex_get ex_now ex_since () = Some (Inr ex_report)
   \<and> archived (ex_repos ! 1)
   \<and> map (\<lambda>s. (info_name s, info_full s)) (repos ex_report) =
       [(''repo-a'', ''team1/repo-a''), (''repo-c'', ''team1/repo-c''), (''repo-y'', ''team1/repo-y'')]
   \<and> main_from ascii_lower ex_cfg ex_get ex_now ex_since [ex_repos ! 0, ex_repos ! 2, ex_repos ! 3] () =
       Some (Inr (ex_report\<lparr>repos_total := 3\<rparr>))"
proof -
  have "filter (\<lambda>r. \<not> (archived r \<or> disabled r)) ex_repos = [ex_repos ! 0, ex_repos ! 2, ex_repos ! 3]"
    by (simp add: ex_repos_def)
  moreover have "archived (ex_repos ! 1)"
    by (simp add: ex_repos_def)
  moreover have "map (\<lambda>r. (name r, full r)) [ex_repos ! 0, ex_repos ! 2, ex_repos ! 3] =
       [(''repo-a'', ''team1/repo-a''), (''repo-c'', ''team1/repo-c''), (''repo-y'', ''team1/repo-y'')]"
    by (simp add: ex_repos_def)
  ultimately show ?thesis
    using archived_disabled_left_out [OF ex_enumerated ex_run] ex_enumerated ex_run by simp
qed

text \<open>
  Claim C9. \<open>repos_total\<close> is the number of enumerated repositories, archived and disabled
  ones included, while the report's repository list has one summary for each repository
  that is neither; so \<open>repos_total\<close> exceeds the length of the list as soon as one
  enumerated repository is archived or disabled.
\<close>

theorem repos_total_counts_all:
  assumes "list_org_repos post (ORG cfg) w = Some (Inr rs, w1)"
    and "main lower cfg post get now_iso since_iso w = Some (Inr rep)"
  shows "repos_total rep = int (length rs)
       \<and> length (repos rep) = length (filter (\<lambda>r. \<not> (archived r \<or> disabled r)) rs)
       \<and> ((\<exists>r\<in>set rs. archived r \<or> disabled r) \<longrightarrow> int (length (repos rep)) < repos_total rep)"
proof -
  from main_trace [OF assms] obtain ps where
    ps: "fetched get since_iso rs w1 = Some ps" and
    rep: "rep = report cfg now_iso rs (run_totals lower (track_map cfg) ps
            \<lparr>contributor_totals = [], repo_activity = [], stats_repos = []\<rparr>)"
    by blast
  have total: "repos_total rep = int (length rs)"
    by (simp add: rep report_def)
  have "length (repos rep) = length (map fst ps)"
    by (simp add: rep repos_report stats_repos_run_totals)
  then have len: "length (repos rep) = length (filter (\<lambda>r. \<not> (archived r \<or> disabled r)) rs)"
    by (simp only: fetched_repos [OF ps])
  have "length (filter (\<lambda>r. \<not> (archived r \<or> disabled r)) rs) < length rs"
    if "\<exists>r\<in>set rs. archived r \<or> disabled r"
    using that by (auto intro: length_filter_less)
  with total len show ?thesis by auto
qed

theorem repos_total_counts_all_witness:
  "list_org_repos ex_post (ORG ex_cfg) () = Some (Inr ex_repos, ())
   \<and> main ascii_lower ex_cfg ex_post ex_get ex_now ex_since () = Some (Inr ex_report)
   \<and> archived (ex_repos ! 1)
   \<and> repos_total ex_report = 4 \<and> length (repos ex_report) = 3"
proof -
  have "\<exists>r\<in>set ex_repos. archived r \<or> disabled r"
    by (simp add: ex_repos_def)
  moreover have "archived (ex_repos ! 1)" "length ex_repos = 4"
    by (simp_all add: ex_repos_def)
  moreover have "length (repos ex_report) = 3"
    by (simp add: ex_report_def)
  ultimately show ?thesis
    using repos_total_counts_all [OF ex_enumerated ex_run] ex_enumerated ex_run by simp
qed

text \<open>
  Claim C10. In every report that a run produces, the commit count of each repository
  summary is the sum of the \<open>commits\<close> values of that summary's contributors list.
\<close>

theorem commits_count_is_sum_of_contributors:
  assumes "main lower cfg post get now_iso since_iso w = Some (Inr rep)"
  shows "\<forall>s\<in>set (repos rep). commits_count s = sum_list (map commits (contributors s))"
proof -
  from main_enumerated [OF assms] obtain rs w1 where
    "main_from lower cfg get now_iso since_iso rs w1 = Some (Inr rep)" by blast
  from main_from_report [OF this] obtain ps where
    "repos rep = map (\<lambda>(r, cs). repo_summary lower (track_map cfg) r cs) ps"
    by (auto simp: repos_report stats_repos_run_totals)
  then show ?thesis
    by (auto simp: commits_count_repo_summary sum_contributors_repo_summary)
qed

theorem commits_count_is_sum_of_contributors_witness:
  "main ascii_lower ex_cfg ex_post ex_get ex_now ex_since () = Some (Inr ex_report)
   \<and> list_all (\<lambda>s. commits_count s = sum_list (map commits (contributors s))) (repos ex_report)"
  using commits_count_is_sum_of_contributors [OF ex_run] ex_run by (simp add: list_all_iff)

end
